theory Spec2Isabelle
  imports Complex_Main "HOL-Library.Multiset" "HOL-Library.Sublist"
begin

section \<open>Strings\<close>

text \<open>
  JavaScript strings are modelled as \<open>string\<close>, one \<open>char\<close> per code unit.  The
  whitespace class of \<open>String.prototype.trim\<close> and of the regular expression \<open>\s\<close> is
  modelled by its members below code unit 256.
\<close>

definition is_ws :: "char \<Rightarrow> bool" where
  "is_ws c = (c \<in> set [CHR 0x09, CHR 0x0A, CHR 0x0B, CHR 0x0C, CHR 0x0D, CHR 0x20, CHR 0xA0])"

text \<open>\<open>s.trim()\<close>\<close>

definition trim :: "string \<Rightarrow> string" where
  "trim s = rev (dropWhile is_ws (rev (dropWhile is_ws s)))"

text \<open>\<open>s.slice(0, n)\<close>\<close>

definition slice0 :: "nat \<Rightarrow> string \<Rightarrow> string" where
  "slice0 n s = take n s"

text \<open>\<open>s.replace(/\s+/g, ' ')\<close>: every maximal run of whitespace becomes one space.\<close>

function collapse_ws :: "string \<Rightarrow> string" where
  "collapse_ws [] = []"
| "collapse_ws (c # cs) =
     (if is_ws c then CHR 0x20 # collapse_ws (dropWhile is_ws cs) else c # collapse_ws cs)"
  by pat_completeness auto
termination
  by (relation "measure length") (auto simp: length_dropWhile_le less_Suc_eq_le)

text \<open>\<open>s.startsWith(p)\<close>\<close>

fun startsWith :: "string \<Rightarrow> string \<Rightarrow> bool" where
  "startsWith s [] = True"
| "startsWith [] (p # ps) = False"
| "startsWith (c # cs) (p # ps) = (c = p \<and> startsWith cs ps)"

text \<open>\<open>s.includes(v)\<close>\<close>

fun str_includes :: "string \<Rightarrow> string \<Rightarrow> bool" where
  "str_includes [] v = (v = [])"
| "str_includes (c # cs) v = (startsWith (c # cs) v \<or> str_includes cs v)"

text \<open>
  \<open>s.toLowerCase()\<close> on the code units below 256: the letters \<open>A\<close> to \<open>Z\<close> and the
  capital letters U+00C0 to U+00DE, without the multiplication sign U+00D7, move up by
  32; every other code unit stays.
\<close>

definition upper_letters :: string where
  "upper_letters =
     ''ABCDEFGHIJKLMNOPQRSTUVWXYZ''
     @ [CHR 0xC0, CHR 0xC1, CHR 0xC2, CHR 0xC3, CHR 0xC4, CHR 0xC5, CHR 0xC6, CHR 0xC7,
        CHR 0xC8, CHR 0xC9, CHR 0xCA, CHR 0xCB, CHR 0xCC, CHR 0xCD, CHR 0xCE, CHR 0xCF,
        CHR 0xD0, CHR 0xD1, CHR 0xD2, CHR 0xD3, CHR 0xD4, CHR 0xD5, CHR 0xD6,
        CHR 0xD8, CHR 0xD9, CHR 0xDA, CHR 0xDB, CHR 0xDC, CHR 0xDD, CHR 0xDE]"

definition lower_letters :: string where
  "lower_letters =
     ''abcdefghijklmnopqrstuvwxyz''
     @ [CHR 0xE0, CHR 0xE1, CHR 0xE2, CHR 0xE3, CHR 0xE4, CHR 0xE5, CHR 0xE6, CHR 0xE7,
        CHR 0xE8, CHR 0xE9, CHR 0xEA, CHR 0xEB, CHR 0xEC, CHR 0xED, CHR 0xEE, CHR 0xEF,
        CHR 0xF0, CHR 0xF1, CHR 0xF2, CHR 0xF3, CHR 0xF4, CHR 0xF5, CHR 0xF6,
        CHR 0xF8, CHR 0xF9, CHR 0xFA, CHR 0xFB, CHR 0xFC, CHR 0xFD, CHR 0xFE]"

definition lower_char :: "char \<Rightarrow> char" where
  "lower_char c =
     (case map_of (zip upper_letters lower_letters) c of
        None \<Rightarrow> c
      | Some l \<Rightarrow> l)"

definition toLowerCase :: "string \<Rightarrow> string" where
  "toLowerCase s = map lower_char s"

text \<open>\<open>a || b\<close> on strings: the empty string is falsy.\<close>

definition or_else :: "string \<Rightarrow> string \<Rightarrow> string" where
  "or_else a b = (if a \<noteq> [] then a else b)"

text \<open>
  The separator of a link's destination is the single code unit U+2192 (rightwards arrow).
  It lies outside the 8-bit \<open>char\<close> of HOL and is represented by one reserved character, so
  that every length of the model is the length in code units of the source.
\<close>

definition arrow :: char where
  "arrow = CHR 0x1A"

section \<open>The document\<close>

text \<open>
  The DOM properties the scripts read from an element: \<open>el.type\<close>, \<open>el.disabled\<close>,
  \<open>el.placeholder\<close>, \<open>el.href\<close>, \<open>el.name\<close>, \<open>el.value\<close>, \<open>el.textContent\<close>,
  \<open>el.isContentEditable\<close>, \<open>el.offsetParent === null\<close>, \<open>getComputedStyle(el).position\<close>
  and \<open>el.getBoundingClientRect()\<close> (read after \<open>scrollIntoView\<close>).  A property that is
  undefined or empty in the browser is the empty string, respectively \<open>False\<close>.
\<close>

record dom_props =
  prop_type :: string
  prop_disabled :: bool
  prop_placeholder :: string
  prop_href :: string
  prop_name :: string
  prop_value :: string
  textContent :: string
  isContentEditable :: bool
  offsetParent_null :: bool
  css_position :: string
  rect_x :: real
  rect_y :: real
  rect_width :: real
  rect_height :: real

text \<open>
  An element: its identity \<open>el_id\<close> (the object reference of the source), \<open>tagName\<close>, its
  attributes, the attribute \<open>data-bjs-idx\<close> (the index stamp, kept apart: \<open>Some n\<close> is the
  attribute with the decimal numeral \<open>n\<close>), its properties, its child elements and its shadow
  root (the child elements of the shadow root) when it hosts one.
\<close>

datatype element = Element
  (el_id: nat)
  (tagName: string)
  (attributes: "(string \<times> string) list")
  (bjs_idx: "nat option")
  (props: dom_props)
  (childNodes: "element list")
  (shadowRoot: "element list option")

text \<open>What \<open>querySelectorAll\<close> is called on: the document, a shadow root, or an element.\<close>

datatype node = Document "element list" | ShadowRoot "element list" | ElementNode element

text \<open>\<open>el.getAttribute(k)\<close>\<close>

definition getAttribute :: "element \<Rightarrow> string \<Rightarrow> string option" where
  "getAttribute el k = map_of (attributes el) k"

text \<open>\<open>el.getAttribute(k) || ''\<close>\<close>

definition attr_or_empty :: "element \<Rightarrow> string \<Rightarrow> string" where
  "attr_or_empty el k = (case getAttribute el k of None \<Rightarrow> [] | Some v \<Rightarrow> v)"

text \<open>
  A selector is decided on an element and its parent element (\<open>None\<close> for a child of the
  document or of a shadow root), which is what the child combinator of
  \<open>details > summary\<close> needs.
\<close>

type_synonym selector = "element option \<Rightarrow> element \<Rightarrow> bool"

text \<open>The elements below a parent, in document order, each with its parent element.\<close>

fun subtree :: "element option \<Rightarrow> element \<Rightarrow> (element option \<times> element) list" where
  "subtree p (Element i t a s pr ks sh) =
     (p, Element i t a s pr ks sh) # concat (map (subtree (Some (Element i t a s pr ks sh))) ks)"

fun descendants :: "node \<Rightarrow> (element option \<times> element) list" where
  "descendants (Document ks) = concat (map (subtree None) ks)"
| "descendants (ShadowRoot ks) = concat (map (subtree None) ks)"
| "descendants (ElementNode e) = concat (map (subtree (Some e)) (childNodes e))"

text \<open>
  \<open>rt.querySelectorAll(sel)\<close>: the descendants of \<open>rt\<close> that match, in document order; it
  does not enter shadow roots and does not return \<open>rt\<close> itself.  \<open>rt.querySelector(sel)\<close>
  is the first of them.
\<close>

definition querySelectorAll :: "selector \<Rightarrow> node \<Rightarrow> element list" where
  "querySelectorAll sel rt = map snd (filter (\<lambda>(p, e). sel p e) (descendants rt))"

definition querySelector :: "selector \<Rightarrow> node \<Rightarrow> element option" where
  "querySelector sel rt = (case querySelectorAll sel rt of [] \<Rightarrow> None | e # es \<Rightarrow> Some e)"

text \<open>The selectors of the scripts.\<close>

definition star :: selector where
  "star = (\<lambda>p e. True)"

definition tag_is :: "element \<Rightarrow> string \<Rightarrow> bool" where
  "tag_is e t = (toLowerCase (tagName e) = t)"

definition has_attr :: "element \<Rightarrow> string \<Rightarrow> bool" where
  "has_attr e k = (getAttribute e k \<noteq> None)"

definition attr_is :: "element \<Rightarrow> string \<Rightarrow> string \<Rightarrow> bool" where
  "attr_is e k v = (getAttribute e k = Some v)"

definition interactive_selectors :: selector where
  "interactive_selectors p e =
     (tag_is e ''a'' \<and> has_attr e ''href''
      \<or> tag_is e ''button'' \<or> tag_is e ''input'' \<or> tag_is e ''select'' \<or> tag_is e ''textarea''
      \<or> attr_is e ''role'' ''button'' \<or> attr_is e ''role'' ''link''
      \<or> attr_is e ''role'' ''tab'' \<or> attr_is e ''role'' ''menuitem''
      \<or> attr_is e ''role'' ''checkbox'' \<or> attr_is e ''role'' ''radio''
      \<or> attr_is e ''role'' ''textbox''
      \<or> has_attr e ''onclick''
      \<or> has_attr e ''tabindex'' \<and> \<not> attr_is e ''tabindex'' ''-1''
      \<or> tag_is e ''summary'' \<and> (case p of None \<Rightarrow> False | Some d \<Rightarrow> tag_is d ''details'')
      \<or> attr_is e ''contenteditable'' ''true'')"

definition dialog_selectors :: selector where
  "dialog_selectors p e =
     (attr_is e ''role'' ''dialog'' \<or> attr_is e ''role'' ''presentation''
      \<or> attr_is e ''aria-modal'' ''true'')"

definition any_stamp :: selector where
  "any_stamp p e = (bjs_idx e \<noteq> None)"

definition stamp_is :: "nat \<Rightarrow> selector" where
  "stamp_is idx p e = (bjs_idx e = Some idx)"

section \<open>The shadow-piercing helpers of the scan script\<close>

fun esize :: "element \<Rightarrow> nat" where
  "esize (Element i t a s p ks sh) =
     Suc (sum_list (map esize ks)
          + (case sh of None \<Rightarrow> 0 | Some sr \<Rightarrow> Suc (sum_list (map esize sr))))"

fun node_size :: "node \<Rightarrow> nat" where
  "node_size (Document ks) = Suc (sum_list (map esize ks))"
| "node_size (ShadowRoot ks) = Suc (sum_list (map esize ks))"
| "node_size (ElementNode e) = esize e"

text \<open>
  \<open>deepQueryAll(root, selectors)\<close>: the matches of \<open>root.querySelectorAll(selectors)\<close>,
  followed, for each element of \<open>root.querySelectorAll('*')\<close> that hosts a shadow root, by
  the result of the recursive call on that shadow root.
\<close>

function deepQueryAll :: "node \<Rightarrow> selector \<Rightarrow> element list" where
  "deepQueryAll rt selectors =
     querySelectorAll selectors rt @
     concat (map (\<lambda>el. case shadowRoot el of
                          None \<Rightarrow> []
                        | Some sr \<Rightarrow> deepQueryAll (ShadowRoot sr) selectors)
                 (querySelectorAll star rt))"
  by pat_completeness auto

lemma esize_subtree: "(q, x) \<in> set (subtree p e) \<Longrightarrow> esize x \<le> esize e"
proof (induction p e arbitrary: q x rule: subtree.induct)
  case (1 p i t a s pr ks sh)
  let ?e = "Element i t a s pr ks sh"
  from "1.prems" consider "x = ?e"
    | k where "k \<in> set ks" "(q, x) \<in> set (subtree (Some ?e) k)"
    by auto
  then show ?case
  proof cases
    case 1
    then show ?thesis by simp
  next
    case 2
    have "esize x \<le> esize k" using "1.IH"[OF 2] .
    also have "\<dots> \<le> sum_list (map esize ks)"
      using 2(1) by (simp add: member_le_sum_list)
    finally show ?thesis by simp
  qed
qed

lemma esize_subtrees:
  assumes "(q, x) \<in> set (concat (map (subtree p) ks))"
  shows "esize x \<le> sum_list (map esize ks)"
proof -
  from assms obtain k where k: "k \<in> set ks" "(q, x) \<in> set (subtree p k)" by auto
  have "esize x \<le> esize k" using esize_subtree[OF k(2)] .
  also have "\<dots> \<le> sum_list (map esize ks)"
    using k(1) by (simp add: member_le_sum_list)
  finally show ?thesis .
qed

lemma esize_descendants:
  assumes "(q, x) \<in> set (descendants rt)"
  shows "esize x < node_size rt"
proof (cases rt)
  case (Document ks)
  with assms show ?thesis using esize_subtrees[of q x None ks] by simp
next
  case (ShadowRoot ks)
  with assms show ?thesis using esize_subtrees[of q x None ks] by simp
next
  case (ElementNode e)
  with assms show ?thesis
    using esize_subtrees[of q x "Some e" "childNodes e"] by (cases e) simp
qed

lemma esize_shadow: "shadowRoot x = Some sr \<Longrightarrow> node_size (ShadowRoot sr) \<le> esize x"
  by (cases x) simp

lemma shadow_smaller:
  assumes "el \<in> set (querySelectorAll sel rt)" and "shadowRoot el = Some sr"
  shows "node_size (ShadowRoot sr) < node_size rt"
proof -
  from assms(1) obtain q where "(q, el) \<in> set (descendants rt)"
    by (auto simp: querySelectorAll_def)
  then have "esize el < node_size rt" by (rule esize_descendants)
  with esize_shadow[OF assms(2)] show ?thesis by simp
qed

termination deepQueryAll
  by (relation "measure (\<lambda>(rt, s). node_size rt)") (auto dest: shadow_smaller)

text \<open>The first defined result of \<open>f\<close> along a list: a \<open>for\<close> loop that returns early.\<close>

fun first_some :: "('a \<Rightarrow> 'b option) \<Rightarrow> 'a list \<Rightarrow> 'b option" where
  "first_some f [] = None"
| "first_some f (x # xs) = (case f x of None \<Rightarrow> first_some f xs | Some y \<Rightarrow> Some y)"

lemma first_some_cong [fundef_cong]:
  "xs = ys \<Longrightarrow> (\<And>x. x \<in> set ys \<Longrightarrow> f x = g x) \<Longrightarrow> first_some f xs = first_some g ys"
  by (induction ys arbitrary: xs) (auto split: option.splits)

text \<open>
  \<open>deepQueryStamp(root, idx)\<close>: the first element of \<open>root\<close> that carries the stamp, else
  the first result of the recursive call on the shadow roots hosted below \<open>root\<close>.
\<close>

function deepQueryStamp :: "node \<Rightarrow> nat \<Rightarrow> element option" where
  "deepQueryStamp rt idx =
     (case querySelector (stamp_is idx) rt of
        Some found \<Rightarrow> Some found
      | None \<Rightarrow>
          first_some (\<lambda>el. case shadowRoot el of
                             None \<Rightarrow> None
                           | Some sr \<Rightarrow> deepQueryStamp (ShadowRoot sr) idx)
                     (querySelectorAll star rt))"
  by pat_completeness auto
termination
  by (relation "measure (\<lambda>(rt, s). node_size rt)") (auto dest: shadow_smaller)

text \<open>
  \<open>deepClearStamps(root)\<close> removes the stamp of every element below \<open>root\<close> and calls
  itself on every shadow root hosted there; both loops of the source run over the same
  elements and are one traversal here.  The function returns the tree the source mutates.
\<close>

fun clearStamp :: "element \<Rightarrow> element" where
  "clearStamp (Element i t a s pr ks sh) =
     Element i t a None pr (map clearStamp ks) (map_option (map clearStamp) sh)"

definition deepClearStamps :: "element list \<Rightarrow> element list" where
  "deepClearStamps doc = map clearStamp doc"

text \<open>
  \<open>el.setAttribute('data-bjs-idx', n)\<close> on the element with identity \<open>i\<close>, as an update of
  the tree that holds it.
\<close>

fun setStamp :: "nat \<Rightarrow> nat \<Rightarrow> element \<Rightarrow> element" where
  "setStamp i n (Element j t a s pr ks sh) =
     Element j t a (if j = i then Some n else s) pr
       (map (setStamp i n) ks) (map_option (map (setStamp i n)) sh)"

section \<open>The scan script\<close>

text \<open>The descriptor of one listed element, and the page: the document and whether
  \<open>window.__bjsDeepQuery\<close> is defined.\<close>

record descriptor =
  label :: string
  desc :: string

record page =
  document :: "element list"
  bjsDeepQuery :: bool

text \<open>The topmost dialog: \<open>allDialogs\<close>, \<open>realDialogs\<close> and \<open>topDialog\<close>.\<close>

definition rendered :: "element \<Rightarrow> bool" where
  "rendered d = (\<not> offsetParent_null (props d) \<or> css_position (props d) = ''fixed'')"

definition allDialogs :: "element list \<Rightarrow> element list" where
  "allDialogs doc = filter rendered (querySelectorAll dialog_selectors (Document doc))"

definition realDialogs :: "element list \<Rightarrow> element list" where
  "realDialogs doc =
     filter (\<lambda>d. getAttribute d ''role'' = Some ''dialog''
                 \<or> getAttribute d ''aria-modal'' = Some ''true'') (allDialogs doc)"

definition topDialog :: "element list \<Rightarrow> element option" where
  "topDialog doc =
     (if length (realDialogs doc) > 0 then Some (last (realDialogs doc))
      else if allDialogs doc \<noteq> [] then Some (last (allDialogs doc))
      else None)"

text \<open>\<open>d.contains(a)\<close>: \<open>a\<close> is \<open>d\<close> or a descendant of \<open>d\<close>; shadow roots are not entered.\<close>

definition contains :: "element \<Rightarrow> element \<Rightarrow> bool" where
  "contains d a = (el_id a \<in> set (map (\<lambda>(p, e). el_id e) (subtree None d)))"

text \<open>\<open>topDialog && topDialog.contains(a)\<close>\<close>

definition inDialog :: "element option \<Rightarrow> element \<Rightarrow> bool" where
  "inDialog td a = (case td of None \<Rightarrow> False | Some d \<Rightarrow> contains d a)"

text \<open>The sort: \<open>Array.prototype.sort\<close> is stable, the comparator is the difference of the
  ranks \<open>0\<close> (in the dialog) and \<open>1\<close>.\<close>

definition dialogRank :: "element option \<Rightarrow> element \<Rightarrow> nat" where
  "dialogRank td a = (if inDialog td a then 0 else 1)"

definition sorted_candidates :: "element option \<Rightarrow> element list \<Rightarrow> element list" where
  "sorted_candidates td interactive = sort_key (dialogRank td) interactive"

text \<open>The body of the loop over \<open>sorted\<close>, variable by variable.\<close>

definition is_hidden :: "element \<Rightarrow> bool" where
  "is_hidden el =
     (offsetParent_null (props el) \<and> tagName el \<noteq> ''BODY'' \<and> css_position (props el) \<noteq> ''fixed'')"

definition isDisabled :: "element \<Rightarrow> bool" where
  "isDisabled el = (prop_disabled (props el) \<or> getAttribute el ''aria-disabled'' = Some ''true'')"

definition el_tag :: "element \<Rightarrow> string" where
  "el_tag el = toLowerCase (tagName el)"

definition el_role :: "element \<Rightarrow> string" where
  "el_role el = attr_or_empty el ''role''"

definition el_text :: "element \<Rightarrow> string" where
  "el_text el = collapse_ws (slice0 80 (trim (textContent (props el))))"

definition el_ariaLabel :: "element \<Rightarrow> string" where
  "el_ariaLabel el = attr_or_empty el ''aria-label''"

definition el_value :: "element \<Rightarrow> string" where
  "el_value el =
     (if el_tag el = ''input'' \<or> el_tag el = ''select'' \<or> el_tag el = ''textarea''
      then slice0 40 (prop_value (props el)) else [])"

definition el_label :: "element \<Rightarrow> string" where
  "el_label el =
     (let tag = el_tag el; type = prop_type (props el); role = el_role el;
          l = (if tag = ''a'' then ''link''
               else if tag = ''button'' \<or> role = ''button'' then ''button''
               else if tag = ''input'' then (if type \<noteq> [] then ''input:'' @ type else ''input'')
               else if tag = ''select'' then ''select''
               else if tag = ''textarea'' then ''textarea''
               else if role = ''textbox'' then ''textbox''
               else if role \<noteq> [] then role
               else tag)
      in if isDisabled el then l @ '':disabled'' else l)"

definition short_href :: "string \<Rightarrow> string" where
  "short_href h = (if length h > 60 then slice0 57 h @ ''...'' else h)"

definition el_desc :: "element \<Rightarrow> string" where
  "el_desc el =
     (let tag = el_tag el; href = prop_href (props el); val = el_value el;
          d0 = or_else (el_ariaLabel el)
                 (or_else (el_text el)
                    (or_else (prop_placeholder (props el)) (prop_name (props el))));
          d1 = (if val \<noteq> [] \<and> \<not> str_includes d0 val
                then d0 @ (if d0 \<noteq> [] then '' ['' @ val @ '']'' else val)
                else d0)
      in if tag = ''a'' \<and> href \<noteq> [] \<and> \<not> startsWith href ''javascript:''
         then d1 @ (if d1 \<noteq> [] then [CHR 0x20, arrow, CHR 0x20] @ short_href href
                    else short_href href)
         else d1)"

definition el_scope :: "element option \<Rightarrow> element \<Rightarrow> string" where
  "el_scope td el = (if inDialog td el then ''modal'' else ''page'')"

definition el_key :: "element option \<Rightarrow> element \<Rightarrow> string" where
  "el_key td el = el_scope td el @ ''|'' @ el_label el @ ''|'' @ el_desc el"

definition el_descriptor :: "element \<Rightarrow> descriptor" where
  "el_descriptor el = \<lparr>label = el_label el, desc = slice0 120 (el_desc el)\<rparr>"

text \<open>
  The loop: \<open>seen\<close> is the set of keys, \<open>results\<close> the list of descriptors, \<open>dom\<close> the
  document, in which the loop stamps the elements it keeps.  The elements of \<open>sorted\<close> are
  read as they were when the loop started: no property the body reads depends on a stamp.
\<close>

record loop_state =
  seen :: "string list"
  results :: "descriptor list"
  dom :: "element list"

fun scan_loop :: "element option \<Rightarrow> element list \<Rightarrow> loop_state \<Rightarrow> loop_state" where
  "scan_loop td [] st = st"
| "scan_loop td (el # els) st =
     (if is_hidden el then scan_loop td els st
      else if el_key td el \<in> set (seen st) then scan_loop td els st
      else scan_loop td els
             \<lparr>seen = seen st @ [el_key td el],
              results = results st @ [el_descriptor el],
              dom = map (setStamp (el_id el) (length (results st))) (dom st)\<rparr>)"

datatype scan_error = Selector_not_found

text \<open>
  \<open>ELEMENTS_JS(selector)\<close>, evaluated in the page: the new page and the value the script
  returns, an error or the list of descriptors.  \<open>None\<close> is the selector \<open>null\<close>.
\<close>

definition scan_root :: "selector option \<Rightarrow> element list \<Rightarrow> node option" where
  "scan_root sel doc =
     (case sel of
        None \<Rightarrow> Some (Document doc)
      | Some s \<Rightarrow> map_option ElementNode (querySelector s (Document doc)))"

definition ELEMENTS_JS :: "selector option \<Rightarrow> page \<Rightarrow> page \<times> (scan_error + descriptor list)" where
  "ELEMENTS_JS sel pg =
     (let doc = deepClearStamps (document pg) in
      case scan_root sel doc of
        None \<Rightarrow> (\<lparr>document = doc, bjsDeepQuery = True\<rparr>, Inl Selector_not_found)
      | Some rt \<Rightarrow>
          let interactive = deepQueryAll rt interactive_selectors;
              td = topDialog doc;
              st = scan_loop td (sorted_candidates td interactive)
                     \<lparr>seen = [], results = [], dom = doc\<rparr>
          in (\<lparr>document = dom st, bjsDeepQuery = True\<rparr>, Inr (results st)))"

section \<open>The commands\<close>

datatype message =
    Usage_click
  | Usage_type
  | Click_not_found nat
  | Type_not_found nat
  | Not_a_text_input nat string
  | Clicked string string
  | Typed nat string bool
  | Elements_error scan_error
  | No_interactive_elements
  | Listing "descriptor list"

text \<open>
  What a command does besides returning its message, in the order it does it: the input
  events it sends through the protocol, and what its in-page scripts do to the element
  with the given identity (\<open>SetValue i v\<close> is an assignment of \<open>v\<close> to \<open>el.value\<close>).
\<close>

datatype effect =
    ScrollIntoView nat
  | MousePressed real real
  | MouseReleased real real
  | SelectNodeContents nat
  | KeyDown string
  | KeyUp string
  | InsertText string
  | SetValue nat string
  | DispatchEvent nat string

definition cmdElements :: "selector option \<Rightarrow> page \<Rightarrow> page \<times> message" where
  "cmdElements sel pg =
     (case ELEMENTS_JS sel pg of
        (pg', Inl err) \<Rightarrow> (pg', Elements_error err)
      | (pg', Inr elements) \<Rightarrow>
          (pg', if length elements = 0 then No_interactive_elements else Listing elements))"

definition ensureIndexed :: "page \<Rightarrow> page \<times> bool" where
  "ensureIndexed pg =
     (if querySelector any_stamp (Document (document pg)) \<noteq> None
         \<or> (bjsDeepQuery pg \<and> deepQueryStamp (Document (document pg)) 0 \<noteq> None)
      then (pg, False)
      else (fst (ELEMENTS_JS None pg), True))"

text \<open>\<open>(window.__bjsDeepQuery && window.__bjsDeepQuery(index)) ||
  document.querySelector('[data-bjs-idx="index"]')\<close>\<close>

definition resolve :: "page \<Rightarrow> nat \<Rightarrow> element option" where
  "resolve pg idx =
     (case (if bjsDeepQuery pg then deepQueryStamp (Document (document pg)) idx else None) of
        Some el \<Rightarrow> Some el
      | None \<Rightarrow> querySelector (stamp_is idx) (Document (document pg)))"

definition center_x :: "element \<Rightarrow> real" where
  "center_x el = rect_x (props el) + rect_width (props el) / 2"

definition center_y :: "element \<Rightarrow> real" where
  "center_y el = rect_y (props el) + rect_height (props el) / 2"

definition click_label :: "element \<Rightarrow> string" where
  "click_label el = or_else (attr_or_empty el ''role'') (toLowerCase (tagName el))"

definition click_desc :: "element \<Rightarrow> string" where
  "click_desc el =
     slice0 80 (trim (or_else (attr_or_empty el ''aria-label'') (textContent (props el))))"

definition cmdClick :: "nat option \<Rightarrow> page \<Rightarrow> page \<times> effect list \<times> message" where
  "cmdClick index pg =
     (case index of
        None \<Rightarrow> (pg, [], Usage_click)
      | Some i \<Rightarrow>
          let pg1 = fst (ensureIndexed pg) in
          (case resolve pg1 i of
             None \<Rightarrow> (pg1, [], Click_not_found i)
           | Some el \<Rightarrow>
               (pg1,
                [ScrollIntoView (el_id el),
                 MousePressed (center_x el) (center_y el),
                 MouseReleased (center_x el) (center_y el)],
                Clicked (click_label el) (click_desc el))))"

text \<open>\<open>el.value = v\<close> on the element with identity \<open>i\<close>.\<close>

fun setValue :: "nat \<Rightarrow> string \<Rightarrow> element \<Rightarrow> element" where
  "setValue i v (Element j t a s pr ks sh) =
     Element j t a s (if j = i then pr\<lparr>prop_value := v\<rparr> else pr)
       (map (setValue i v) ks) (map_option (map (setValue i v)) sh)"

definition typeable :: "element \<Rightarrow> bool" where
  "typeable el =
     (el_tag el = ''input'' \<or> el_tag el = ''textarea'' \<or> isContentEditable (props el)
      \<or> el_role el = ''textbox'')"

text \<open>The three later scripts of \<open>cmdType\<close> look the element up again.\<close>

definition clear_content :: "bool \<Rightarrow> nat \<Rightarrow> page \<Rightarrow> page \<times> effect list" where
  "clear_content ce i pg =
     (if ce then
        (pg, (case resolve pg i of None \<Rightarrow> [] | Some el \<Rightarrow> [SelectNodeContents (el_id el)])
             @ [KeyDown ''Backspace'', KeyUp ''Backspace''])
      else
        (case resolve pg i of
           None \<Rightarrow> (pg, [])
         | Some el \<Rightarrow>
             (pg\<lparr>document := map (setValue (el_id el) []) (document pg)\<rparr>,
              [SetValue (el_id el) []])))"

text \<open>\<open>Input.insertText\<close>, and the fallback when the call throws.\<close>

definition insert_text :: "bool \<Rightarrow> string \<Rightarrow> effect list" where
  "insert_text insertText_throws text =
     (if insertText_throws then concat (map (\<lambda>c. [KeyDown [c], KeyUp [c]]) text)
      else [InsertText text])"

text \<open>
  The last script sets the value through \<open>setter.call(el, text)\<close>, where \<open>setter\<close> is the
  value setter of \<open>HTMLInputElement.prototype\<close> whenever the browser has one.  That call
  throws on an element that is not an input, and on a file input for a text that is not
  empty; the script then ends: the value is not set and no event is dispatched.
\<close>

definition input_setter_accepts :: "element \<Rightarrow> string \<Rightarrow> bool" where
  "input_setter_accepts el text =
     (el_tag el = ''input'' \<and> (prop_type (props el) \<noteq> ''file'' \<or> text = []))"

definition set_value_backup :: "bool \<Rightarrow> nat \<Rightarrow> string \<Rightarrow> page \<Rightarrow> page \<times> effect list" where
  "set_value_backup ce i text pg =
     (if ce then (pg, [])
      else
        (case resolve pg i of
           None \<Rightarrow> (pg, [])
         | Some el \<Rightarrow>
             if isContentEditable (props el) then (pg, [])
             else if \<not> input_setter_accepts el text then (pg, [])
             else (pg\<lparr>document := map (setValue (el_id el) text) (document pg)\<rparr>,
                   [SetValue (el_id el) text,
                    DispatchEvent (el_id el) ''input'', DispatchEvent (el_id el) ''change''])))"

definition cmdType :: "bool \<Rightarrow> nat option \<Rightarrow> string \<Rightarrow> page \<Rightarrow> page \<times> effect list \<times> message" where
  "cmdType insertText_throws index text pg =
     (case index of
        None \<Rightarrow> (pg, [], Usage_type)
      | Some i \<Rightarrow>
          if text = [] then (pg, [], Usage_type)
          else
            let pg1 = fst (ensureIndexed pg) in
            (case resolve pg1 i of
              None \<Rightarrow> (pg1, [], Type_not_found i)
            | Some el \<Rightarrow>
                if \<not> typeable el then (pg1, [], Not_a_text_input i (el_tag el))
                else
                  let ce = isContentEditable (props el);
                      click = [ScrollIntoView (el_id el),
                               MousePressed (center_x el) (center_y el),
                               MouseReleased (center_x el) (center_y el)];
                      (pg2, cleared) = clear_content ce i pg1;
                      inserted = insert_text insertText_throws text;
                      (pg3, backup) = set_value_backup ce i text pg2
                  in (pg3, click @ cleared @ inserted @ backup, Typed i (el_tag el) ce)))"

section \<open>Example pages\<close>

text \<open>
  A page whose body holds a custom element \<open>c1\<close>: a submit input is its light child, and
  its shadow root holds a link and a button.
\<close>

definition demo_props :: dom_props where
  "demo_props = \<lparr>prop_type = [], prop_disabled = False, prop_placeholder = [], prop_href = [],
          prop_name = [], prop_value = [], textContent = [], isContentEditable = False,
          offsetParent_null = False, css_position = ''static'',
          rect_x = 0, rect_y = 0, rect_width = 10, rect_height = 10\<rparr>"

definition demo_link :: element where
  "demo_link = Element 3 ''A'' [(''href'', ''https://x/a'')] None
     (demo_props\<lparr>prop_href := ''https://x/a'', textContent := ''A''\<rparr>) [] None"

definition demo_button :: element where
  "demo_button = Element 4 ''BUTTON'' [] None
     (demo_props\<lparr>prop_type := ''submit'', textContent := ''Go'', rect_x := 20\<rparr>) [] None"

definition demo_submit :: element where
  "demo_submit = Element 5 ''INPUT'' [] None
     (demo_props\<lparr>prop_type := ''submit'', prop_value := ''Send'', rect_y := 20\<rparr>) [] None"

definition demo_host :: element where
  "demo_host = Element 2 ''C1'' [] None demo_props [demo_submit] (Some [demo_link, demo_button])"

definition demo_page :: page where
  "demo_page = \<lparr>document = [Element 1 ''BODY'' [] None demo_props [demo_host] None],
                 bjsDeepQuery = False\<rparr>"

text \<open>
  A page with an open dialog: one \<open>OK\<close> button before the dialog, two in it, one after it.
\<close>

definition demo_ok :: "nat \<Rightarrow> element" where
  "demo_ok i = Element i ''BUTTON'' [] None
     (demo_props\<lparr>prop_type := ''submit'', textContent := ''OK''\<rparr>) [] None"

definition demo_dialog :: element where
  "demo_dialog = Element 12 ''DIV'' [(''role'', ''dialog'')] None demo_props
     [demo_ok 13, demo_ok 14] None"

definition demo_dialog_page :: page where
  "demo_dialog_page =
     \<lparr>document = [Element 10 ''BODY'' [] None demo_props
                    [demo_ok 11, demo_dialog, demo_ok 15] None],
      bjsDeepQuery = False\<rparr>"

text \<open>A link whose destination is a script.\<close>

definition demo_js_link :: element where
  "demo_js_link = Element 21 ''A'' [(''href'', ''javascript:void(0)'')] None
     (demo_props\<lparr>prop_href := ''javascript:void(0)'', textContent := ''Go''\<rparr>) [] None"


text \<open>A page with one button and no stamp.\<close>

definition demo_single_page :: page where
  "demo_single_page =
     \<lparr>document = [Element 40 ''BODY'' [] None demo_props [demo_ok 41] None],
      bjsDeepQuery = False\<rparr>"

text \<open>A button three shadow roots deep.\<close>

definition demo_deep_page :: page where
  "demo_deep_page =
     \<lparr>document =
        [Element 50 ''BODY'' [] None demo_props
           [Element 51 ''X-A'' [] None demo_props []
              (Some [Element 52 ''X-B'' [] None demo_props []
                 (Some [Element 53 ''X-C'' [] None demo_props []
                    (Some [demo_ok 54])])])] None],
      bjsDeepQuery = False\<rparr>"

text \<open>
  Two links with the same text of 80 characters, whose destinations agree on their first
  44 characters and differ in the last.
\<close>

definition demo_story :: "nat \<Rightarrow> string \<Rightarrow> element" where
  "demo_story i h = Element i ''A'' [(''href'', h)] None
     (demo_props\<lparr>prop_href := h, textContent := replicate 80 CHR ''a''\<rparr>) [] None"

definition demo_stories_page :: page where
  "demo_stories_page =
     \<lparr>document =
        [Element 60 ''BODY'' [] None demo_props
           [demo_story 61 ''https://example.com/articles/2024/05/report-a'',
            demo_story 62 ''https://example.com/articles/2024/05/report-b''] None],
      bjsDeepQuery = False\<rparr>"

section \<open>Notions used to state the properties\<close>

text \<open>
  The resolution of the topmost dialog in the words of the specification: the last
  rendered element, in document order, whose role is \<open>dialog\<close> or whose \<open>aria-modal\<close> is
  \<open>true\<close>; if there is none, the last rendered element whose role is \<open>presentation\<close>; if
  there is none, no dialog.
\<close>

definition rendered_where :: "(element \<Rightarrow> bool) \<Rightarrow> element list \<Rightarrow> element list" where
  "rendered_where P doc = filter (\<lambda>d. rendered d \<and> P d) (map snd (descendants (Document doc)))"

definition spec_topDialog :: "element list \<Rightarrow> element option" where
  "spec_topDialog doc =
     (case rev (rendered_where (\<lambda>d. attr_is d ''role'' ''dialog'' \<or> attr_is d ''aria-modal'' ''true'') doc) of
        d # ds \<Rightarrow> Some d
      | [] \<Rightarrow>
          (case rev (rendered_where (\<lambda>d. attr_is d ''role'' ''presentation'') doc) of
             d # ds \<Rightarrow> Some d
           | [] \<Rightarrow> None))"

text \<open>
  The elements the loop keeps, in order: those it lists and stamps.  \<open>stamp_all\<close> writes
  the stamps \<open>n\<close>, \<open>n + 1\<close>, ... on them.  Lemma \<open>scan_loop_kept\<close> shows that the loop
  computes exactly this.
\<close>

fun kept :: "element option \<Rightarrow> element list \<Rightarrow> string list \<Rightarrow> element list" where
  "kept td [] sn = []"
| "kept td (el # els) sn =
     (if is_hidden el \<or> el_key td el \<in> set sn then kept td els sn
      else el # kept td els (sn @ [el_key td el]))"

fun stamp_all :: "element list \<Rightarrow> nat \<Rightarrow> element list \<Rightarrow> element list" where
  "stamp_all [] n doc = doc"
| "stamp_all (e # es) n doc = stamp_all es (Suc n) (map (setStamp (el_id e) n) doc)"

text \<open>The intermediate values of one run of the scan script on a page.\<close>

definition scan_doc :: "page \<Rightarrow> element list" where
  "scan_doc pg = deepClearStamps (document pg)"

definition scan_dialog :: "page \<Rightarrow> element option" where
  "scan_dialog pg = topDialog (scan_doc pg)"

definition scan_candidates :: "selector option \<Rightarrow> page \<Rightarrow> element list" where
  "scan_candidates sel pg =
     (case scan_root sel (scan_doc pg) of
        None \<Rightarrow> []
      | Some rt \<Rightarrow> sorted_candidates (scan_dialog pg) (deepQueryAll rt interactive_selectors))"

definition scan_kept :: "selector option \<Rightarrow> page \<Rightarrow> element list" where
  "scan_kept sel pg = kept (scan_dialog pg) (scan_candidates sel pg) []"

text \<open>
  The candidates the loop does not skip as hidden, in the order of the loop, and the
  positions of a list that hold the first occurrence of their key.
\<close>

definition scan_visible :: "selector option \<Rightarrow> page \<Rightarrow> element list" where
  "scan_visible sel pg = filter (\<lambda>e. \<not> is_hidden e) (scan_candidates sel pg)"

definition first_positions :: "('a \<Rightarrow> 'k) \<Rightarrow> 'a list \<Rightarrow> nat list" where
  "first_positions key cs =
     filter (\<lambda>i. list_all (\<lambda>j. key (cs ! j) \<noteq> key (cs ! i)) [0..<i]) [0..<length cs]"

text \<open>
  A string in which whitespace is collapsed: every whitespace character is a space and is
  not followed by a whitespace character.
\<close>

fun collapsed :: "string \<Rightarrow> bool" where
  "collapsed [] = True"
| "collapsed [c] = (is_ws c \<longrightarrow> c = CHR 0x20)"
| "collapsed (c # d # cs) = ((is_ws c \<longrightarrow> c = CHR 0x20 \<and> \<not> is_ws d) \<and> collapsed (d # cs))"

text \<open>
  All elements of the page, as the walker visits them with the selector \<open>*\<close>, and those
  of them that live inside a shadow root.
\<close>

definition page_elements :: "element list \<Rightarrow> element list" where
  "page_elements doc = deepQueryAll (Document doc) star"

definition shadow_elements :: "element list \<Rightarrow> element list" where
  "shadow_elements doc =
     concat (map (\<lambda>el. case shadowRoot el of
                          None \<Rightarrow> []
                        | Some sr \<Rightarrow> deepQueryAll (ShadowRoot sr) star)
                 (querySelectorAll star (Document doc)))"

text \<open>
  The shape shared by the updates \<open>clearStamp\<close>, \<open>setStamp\<close> and \<open>setValue\<close>: the stamp and
  the properties of every element change by a function of its identity; identity, tag,
  attributes and structure stay.
\<close>

fun map_el :: "(nat \<Rightarrow> nat option \<Rightarrow> dom_props \<Rightarrow> nat option \<times> dom_props) \<Rightarrow> element \<Rightarrow> element" where
  "map_el f (Element j t a s pr ks sh) =
     Element j t a (fst (f j s pr)) (snd (f j s pr))
       (map (map_el f) ks) (map_option (map (map_el f)) sh)"

fun map_node :: "(element \<Rightarrow> element) \<Rightarrow> node \<Rightarrow> node" where
  "map_node F (Document ks) = Document (map F ks)"
| "map_node F (ShadowRoot ks) = ShadowRoot (map F ks)"
| "map_node F (ElementNode e) = ElementNode (F e)"

text \<open>The element \<open>e\<close> after the stamps \<open>n\<close>, \<open>n + 1\<close>, ... have been written on \<open>ks\<close>.\<close>

fun stamped :: "element list \<Rightarrow> nat \<Rightarrow> element \<Rightarrow> element" where
  "stamped [] n e = e"
| "stamped (k # ks) n e = stamped ks (Suc n) (setStamp (el_id k) n e)"

text \<open>
  The elements below a node when shadow roots are entered: each element, its children
  and the children of the shadow root it hosts, to any depth.  Below an element node the
  traversal starts at the children of the element, as \<open>descendants\<close> does.
\<close>

fun deep_subtree :: "element option \<Rightarrow> element \<Rightarrow> (element option \<times> element) list" where
  "deep_subtree p (Element i t a s pr ks sh) =
     (p, Element i t a s pr ks sh)
     # concat (map (deep_subtree (Some (Element i t a s pr ks sh))) ks)
     @ (case sh of None \<Rightarrow> [] | Some sr \<Rightarrow> concat (map (deep_subtree None) sr))"

fun deep_descendants :: "node \<Rightarrow> (element option \<times> element) list" where
  "deep_descendants (Document ks) = concat (map (deep_subtree None) ks)"
| "deep_descendants (ShadowRoot ks) = concat (map (deep_subtree None) ks)"
| "deep_descendants (ElementNode e) = concat (map (deep_subtree (Some e)) (childNodes e))"

definition shadow_below :: "element \<Rightarrow> (element option \<times> element) set" where
  "shadow_below x =
     (case shadowRoot x of None \<Rightarrow> {} | Some sr \<Rightarrow> set (deep_descendants (ShadowRoot sr)))"

section \<open>Auxiliary facts\<close>

declare deepQueryAll.simps [simp del] deepQueryStamp.simps [simp del]

subsection \<open>Clearing and stamping\<close>

lemma clearStamp_setStamp: "clearStamp (setStamp i n e) = clearStamp e"
  by (induction e) (auto simp: option.map_comp comp_def intro!: option.map_cong)

lemma clearStamp_idem: "clearStamp (clearStamp e) = clearStamp e"
  by (induction e) (auto simp: option.map_comp comp_def intro!: option.map_cong)

lemma map_clearStamp_setStamp: "map clearStamp (map (setStamp i n) ks) = map clearStamp ks"
  by (simp add: clearStamp_setStamp)

lemma scan_loop_dom_clear:
  "map clearStamp (dom (scan_loop td els st)) = map clearStamp (dom st)"
  by (induction td els st rule: scan_loop.induct) (simp_all add: clearStamp_setStamp)

lemma deepClearStamps_idem: "deepClearStamps (deepClearStamps doc) = deepClearStamps doc"
  by (simp add: deepClearStamps_def clearStamp_idem)

lemma deepClearStamps_after_scan:
  "deepClearStamps (document (fst (ELEMENTS_JS sel pg))) = deepClearStamps (document pg)"
  by (auto simp: ELEMENTS_JS_def Let_def deepClearStamps_def scan_loop_dom_clear clearStamp_idem
      split: option.splits)

subsection \<open>The loop, the sort and the dialog\<close>

lemma scan_loop_kept:
  "scan_loop td els st =
     \<lparr>seen = seen st @ map (el_key td) (kept td els (seen st)),
      results = results st @ map el_descriptor (kept td els (seen st)),
      dom = stamp_all (kept td els (seen st)) (length (results st)) (dom st)\<rparr>"
  by (induction td els st rule: scan_loop.induct) simp_all

lemma scan_results:
  "snd (ELEMENTS_JS sel pg) =
     (case scan_root sel (scan_doc pg) of
        None \<Rightarrow> Inl Selector_not_found
      | Some rt \<Rightarrow> Inr (map el_descriptor (scan_kept sel pg)))"
  by (simp add: ELEMENTS_JS_def Let_def scan_kept_def scan_candidates_def scan_dialog_def
      scan_doc_def scan_loop_kept split: option.splits)

lemma scan_document:
  "document (fst (ELEMENTS_JS sel pg)) = stamp_all (scan_kept sel pg) 0 (scan_doc pg)"
  by (simp add: ELEMENTS_JS_def Let_def scan_kept_def scan_candidates_def scan_dialog_def
      scan_doc_def scan_loop_kept split: option.splits)

lemma insort_key_past:
  "\<forall>a\<in>set as. f a < f x \<Longrightarrow> insort_key f x (as @ bs) = as @ insort_key f x bs"
  by (induction as) auto

lemma sort_key_two_ranks:
  fixes f :: "'a \<Rightarrow> nat"
  assumes "\<And>x. f x = 0 \<or> f x = 1"
  shows "sort_key f xs = filter (\<lambda>x. f x = 0) xs @ filter (\<lambda>x. f x \<noteq> 0) xs"
proof (induction xs)
  case Nil
  show ?case by simp
next
  case (Cons x xs)
  let ?A = "filter (\<lambda>x. f x = 0) xs" and ?B = "filter (\<lambda>x. f x \<noteq> 0) xs"
  have sk: "sort_key f (x # xs) = insort_key f x (?A @ ?B)"
    using Cons.IH by simp
  show ?case
  proof (cases "f x = 0")
    case True
    then have "insort_key f x (?A @ ?B) = x # ?A @ ?B"
      by (intro insort_is_Cons) simp
    with True sk show ?thesis by simp
  next
    case False
    then have fx: "f x = 1" using assms[of x] by simp
    have "insort_key f x (?A @ ?B) = ?A @ insort_key f x ?B"
      by (rule insort_key_past) (simp add: fx)
    moreover have "insort_key f x ?B = x # ?B"
    proof (rule insort_is_Cons)
      show "\<forall>b\<in>set ?B. f x \<le> f b" 
      proof
        fix b assume "b \<in> set ?B"
        then have "f b \<noteq> 0" by simp
        with assms[of b] fx show "f x \<le> f b" by simp
      qed
    qed
    ultimately show ?thesis using False sk by simp
  qed
qed

lemma sorted_candidates_split:
  "sorted_candidates td xs = filter (inDialog td) xs @ filter (\<lambda>x. \<not> inDialog td x) xs"
proof -
  have "sort_key (dialogRank td) xs
        = filter (\<lambda>x. dialogRank td x = 0) xs @ filter (\<lambda>x. dialogRank td x \<noteq> 0) xs"
    by (rule sort_key_two_ranks) (simp add: dialogRank_def)
  then show ?thesis by (simp add: sorted_candidates_def dialogRank_def)
qed

lemma kept_append: "kept td (xs @ ys) sn = kept td xs sn @ kept td ys (sn @ map (el_key td) (kept td xs sn))"
  by (induction xs arbitrary: sn) simp_all

lemma kept_subset: "set (kept td xs sn) \<subseteq> set xs"
  by (induction xs arbitrary: sn) auto

lemma kept_order:
  assumes i: "i < length (kept td (sorted_candidates td xs) [])"
    and j: "j < length (kept td (sorted_candidates td xs) [])"
    and a: "inDialog td (kept td (sorted_candidates td xs) [] ! i)"
    and b: "\<not> inDialog td (kept td (sorted_candidates td xs) [] ! j)"
  shows "i < j"
proof -
  let ?A = "filter (inDialog td) xs" and ?B = "filter (\<lambda>x. \<not> inDialog td x) xs"
  define KA where "KA = kept td ?A []"
  define KB where "KB = kept td ?B ([] @ map (el_key td) KA)"
  have K: "kept td (sorted_candidates td xs) [] = KA @ KB"
    unfolding sorted_candidates_split kept_append KA_def KB_def ..
  have A: "\<forall>x\<in>set KA. inDialog td x" using kept_subset[of td ?A "[]"] by (auto simp: KA_def)
  have B: "\<forall>x\<in>set KB. \<not> inDialog td x"
    using kept_subset[of td ?B] by (auto simp: KB_def)
  have "i < length KA"
  proof (rule ccontr)
    assume "\<not> i < length KA"
    then have "(KA @ KB) ! i \<in> set KB" using i K by (simp add: nth_append)
    with B a K show False by simp
  qed
  moreover have "\<not> j < length KA"
  proof
    assume "j < length KA"
    then have "(KA @ KB) ! j \<in> set KA" by (simp add: nth_append)
    with A b K show False by simp
  qed
  ultimately show ?thesis by simp
qed

lemma realDialogs_spec:
  "realDialogs doc = rendered_where (\<lambda>d. attr_is d ''role'' ''dialog'' \<or> attr_is d ''aria-modal'' ''true'') doc"
  unfolding realDialogs_def allDialogs_def rendered_where_def querySelectorAll_def
  by (induction "descendants (Document doc)")
     (auto simp: filter_map comp_def dialog_selectors_def attr_is_def split_def
           intro!: filter_cong arg_cong[where f="map snd"])


lemma allDialogs_spec:
  assumes "realDialogs doc = []"
  shows "allDialogs doc = rendered_where (\<lambda>d. attr_is d ''role'' ''presentation'') doc"
proof -
  let ?real = "\<lambda>d. attr_is d ''role'' ''dialog'' \<or> attr_is d ''aria-modal'' ''true''"
  let ?ds = "map snd (descendants (Document doc))"
  from assms have none: "\<forall>d\<in>set ?ds. \<not> (rendered d \<and> ?real d)"
    unfolding realDialogs_spec rendered_where_def by (simp add: filter_empty_conv)
  have "allDialogs doc = filter (\<lambda>d. rendered d \<and> dialog_selectors None d) ?ds"
    unfolding allDialogs_def querySelectorAll_def
    by (induction "descendants (Document doc)")
       (auto simp: filter_map comp_def split_def dialog_selectors_def
             intro!: filter_cong arg_cong[where f="map snd"])
  also have "\<dots> = filter (\<lambda>d. rendered d \<and> attr_is d ''role'' ''presentation'') ?ds"
    using none by (intro filter_cong) (auto simp: dialog_selectors_def)
  finally show ?thesis by (simp add: rendered_where_def)
qed

lemma topDialog_spec: "topDialog doc = spec_topDialog doc"
proof (cases "realDialogs doc = []")
  case True
  then show ?thesis
    using allDialogs_spec[OF True]
    by (cases "rev (allDialogs doc)")
       (auto simp: topDialog_def spec_topDialog_def realDialogs_spec[symmetric] last_rev
              split: list.splits
              simp del: rev_is_Nil_conv dest: arg_cong[where f=hd])
next
  case False
  then show ?thesis
    by (cases "rev (realDialogs doc)")
       (auto simp: topDialog_def spec_topDialog_def realDialogs_spec[symmetric]
              dest: arg_cong[where f=hd] simp: hd_rev)
qed

subsection \<open>The kept elements are the first of their key\<close>

lemma list_all_upt: "list_all P [0..<i] \<longleftrightarrow> (\<forall>j<i. P j)"
  by (auto simp: list_all_iff)

lemma kept_hidden_filter: "kept td (filter (\<lambda>e. \<not> is_hidden e) xs) sn = kept td xs sn"
  by (induction xs arbitrary: sn) simp_all

lemma kept_positions_seen:
  assumes "\<forall>x\<in>set cs. \<not> is_hidden x"
  shows "kept td cs sn =
         map ((!) cs) (filter (\<lambda>i. el_key td (cs ! i) \<notin> set sn
                                   \<and> (\<forall>j<i. el_key td (cs ! j) \<noteq> el_key td (cs ! i)))
                              [0..<length cs])"
  using assms
proof (induction cs arbitrary: sn)
  case Nil
  show ?case by simp
next
  case (Cons x cs)
  let ?k = "el_key td"
  let ?P = "\<lambda>s i. ?k (cs ! i) \<notin> set s \<and> (\<forall>j<i. ?k (cs ! j) \<noteq> ?k (cs ! i))"
  let ?Q = "\<lambda>i. ?k ((x # cs) ! i) \<notin> set sn \<and> (\<forall>j<i. ?k ((x # cs) ! j) \<noteq> ?k ((x # cs) ! i))"
  have vis: "\<not> is_hidden x" and rest: "\<forall>y\<in>set cs. \<not> is_hidden y" using Cons.prems by auto
  have upt: "[0..<length (x # cs)] = 0 # map Suc [0..<length cs]"
    by (simp add: upt_conv_Cons map_Suc_upt del: upt_Suc)
  have QSuc: "?Q (Suc i) \<longleftrightarrow> ?k (cs ! i) \<notin> set sn \<and> ?k x \<noteq> ?k (cs ! i)
                \<and> (\<forall>j<i. ?k (cs ! j) \<noteq> ?k (cs ! i))" for i
    by (auto simp: less_Suc_eq_0_disj)
  have tail: "map ((!) (x # cs)) (filter ?Q (map Suc [0..<length cs]))
              = map ((!) cs) (filter (\<lambda>i. ?Q (Suc i)) [0..<length cs])"
    by (simp add: filter_map comp_def)
  show ?case
  proof (cases "?k x \<in> set sn")
    case True
    have "?Q (Suc i) \<longleftrightarrow> ?P sn i" for i
      unfolding QSuc using True by auto
    then have "filter (\<lambda>i. ?Q (Suc i)) [0..<length cs] = filter (?P sn) [0..<length cs]"
      by simp
    with True vis Cons.IH[OF rest, of sn] tail show ?thesis
      unfolding upt by simp
  next
    case False
    have "?Q (Suc i) \<longleftrightarrow> ?P (sn @ [?k x]) i" for i
      unfolding QSuc by auto
    then have "filter (\<lambda>i. ?Q (Suc i)) [0..<length cs] = filter (?P (sn @ [?k x])) [0..<length cs]"
      by simp
    with False vis Cons.IH[OF rest, of "sn @ [?k x]"] tail show ?thesis
      unfolding upt by simp
  qed
qed

lemma kept_first_positions:
  "kept td xs [] = map ((!) (filter (\<lambda>e. \<not> is_hidden e) xs))
                       (first_positions (el_key td) (filter (\<lambda>e. \<not> is_hidden e) xs))"
proof -
  let ?cs = "filter (\<lambda>e. \<not> is_hidden e) xs"
  have "kept td xs [] = kept td ?cs []" by (simp add: kept_hidden_filter)
  also have "\<dots> = map ((!) ?cs) (filter (\<lambda>i. el_key td (?cs ! i) \<notin> set []
                                   \<and> (\<forall>j<i. el_key td (?cs ! j) \<noteq> el_key td (?cs ! i)))
                              [0..<length ?cs])"
    by (rule kept_positions_seen) simp
  also have "\<dots> = map ((!) ?cs) (first_positions (el_key td) ?cs)"
    by (simp add: first_positions_def list_all_upt)
  finally show ?thesis .
qed

lemma scan_kept_positions:
  "scan_kept sel pg =
     map ((!) (scan_visible sel pg)) (first_positions (el_key (scan_dialog pg)) (scan_visible sel pg))"
  by (simp add: scan_kept_def scan_visible_def kept_first_positions)

lemma first_positions_iff:
  "i \<in> set (first_positions key cs) \<longleftrightarrow> i < length cs \<and> (\<forall>j<i. key (cs ! j) \<noteq> key (cs ! i))"
  by (auto simp: first_positions_def list_all_upt)

lemma first_positions_represent:
  assumes "j < length cs"
  shows "\<exists>i\<in>set (first_positions key cs). i \<le> j \<and> key (cs ! i) = key (cs ! j)"
proof -
  define i where "i = (LEAST i. key (cs ! i) = key (cs ! j))"
  have eq: "key (cs ! i) = key (cs ! j)" unfolding i_def by (rule LeastI) simp
  have le: "i \<le> j" unfolding i_def by (rule Least_le) simp
  have "\<forall>l<i. key (cs ! l) \<noteq> key (cs ! i)"
  proof (intro allI impI notI)
    fix l assume "l < i" "key (cs ! l) = key (cs ! i)"
    then have "key (cs ! l) = key (cs ! j)" using eq by simp
    then have "i \<le> l" unfolding i_def by (rule Least_le)
    with \<open>l < i\<close> show False by simp
  qed
  with le assms eq show ?thesis by (auto simp: first_positions_iff)
qed

lemma first_positions_distinct_keys:
  "distinct (map (\<lambda>i. key (cs ! i)) (first_positions key cs))"
proof -
  have d: "distinct (first_positions key cs)" by (simp add: first_positions_def)
  have "inj_on (\<lambda>i. key (cs ! i)) (set (first_positions key cs))"
  proof (rule inj_onI)
    fix a b
    assume a: "a \<in> set (first_positions key cs)" and b: "b \<in> set (first_positions key cs)"
      and eq: "key (cs ! a) = key (cs ! b)"
    show "a = b"
    proof (rule ccontr)
      assume "a \<noteq> b"
      then consider "a < b" | "b < a" by linarith
      then show False using a b eq by cases (auto simp: first_positions_iff)
    qed
  qed
  with d show ?thesis by (simp add: distinct_map)
qed

lemma el_key_scope: "el_scope td a \<noteq> el_scope td b \<Longrightarrow> el_key td a \<noteq> el_key td b"
  by (auto simp: el_key_def el_scope_def split: if_splits)

lemma el_key_triple:
  "el_scope td a = el_scope td b \<Longrightarrow> el_label a = el_label b \<Longrightarrow> el_desc a = el_desc b
   \<Longrightarrow> el_key td a = el_key td b"
  by (simp add: el_key_def)

subsection \<open>Strings\<close>

lemma startsWith_prefix: "startsWith s p \<longleftrightarrow> prefix p s"
  by (induction s p rule: startsWith.induct) auto

lemma str_includes_sublist: "str_includes s v \<longleftrightarrow> sublist v s"
proof (induction s)
  case Nil
  show ?case by simp
next
  case (Cons c cs)
  show ?case
    by (simp add: Cons.IH startsWith_prefix sublist_Cons_right)
qed

lemma collapse_ws_length: "length (collapse_ws s) \<le> length s"
proof (induction s rule: collapse_ws.induct)
  case 1
  show ?case by simp
next
  case (2 c cs)
  have "length (dropWhile is_ws cs) \<le> length cs" by (rule length_dropWhile_le)
  with 2 show ?case by (auto intro: le_trans)
qed

lemma collapse_ws_head: "\<not> is_ws c \<Longrightarrow> collapse_ws (c # cs) = c # collapse_ws cs"
  by simp

lemma collapse_ws_nonws_head:
  "(cs = [] \<or> \<not> is_ws (hd cs)) \<Longrightarrow> collapse_ws cs = [] \<or> \<not> is_ws (hd (collapse_ws cs))"
  by (cases cs) auto

lemma collapsed_collapse_ws: "collapsed (collapse_ws s)"
proof (induction s rule: collapse_ws.induct)
  case 1
  show ?case by simp
next
  case (2 c cs)
  show ?case
  proof (cases "is_ws c")
    case True
    let ?r = "dropWhile is_ws cs"
    have h: "?r = [] \<or> \<not> is_ws (hd ?r)" by (metis hd_dropWhile)
    have c: "collapsed (collapse_ws ?r)" using 2(1)[OF True] .
    show ?thesis
    proof (cases "collapse_ws ?r")
      case Nil
      with True show ?thesis by (simp add: is_ws_def)
    next
      case (Cons d ds)
      with collapse_ws_nonws_head[OF h] have "\<not> is_ws d" by simp
      with True c Cons show ?thesis by simp
    qed
  next
    case False
    have c: "collapsed (collapse_ws cs)" using 2(2)[OF False] .
    show ?thesis using False c by (cases "collapse_ws cs") simp_all
  qed
qed

lemma el_text_bounds: "length (el_text el) \<le> 80 \<and> collapsed (el_text el)"
proof -
  have "length (el_text el) \<le> length (slice0 80 (trim (textContent (props el))))"
    unfolding el_text_def by (rule collapse_ws_length)
  also have "\<dots> \<le> 80" by (simp add: slice0_def)
  finally show ?thesis by (simp add: collapsed_collapse_ws el_text_def)
qed

lemma short_href_bounds:
  "length (short_href h) \<le> 60
   \<and> (if length h \<le> 60 then short_href h = h else short_href h = take 57 h @ ''...'')"
  by (auto simp: short_href_def slice0_def)

subsection \<open>Updates of the tree\<close>

lemma page_elements_split:
  "page_elements doc = querySelectorAll star (Document doc) @ shadow_elements doc"
  by (simp add: page_elements_def shadow_elements_def deepQueryAll.simps[of "Document doc"])

lemma setStamp_map_el: "setStamp i n e = map_el (\<lambda>j s pr. (if j = i then Some n else s, pr)) e"
  by (induction e) (auto intro!: option.map_cong)

lemma clearStamp_map_el: "clearStamp e = map_el (\<lambda>j s pr. (None, pr)) e"
  by (induction e) (auto intro!: option.map_cong)

lemma setValue_map_el:
  "setValue i v e = map_el (\<lambda>j s pr. (s, if j = i then pr\<lparr>prop_value := v\<rparr> else pr)) e"
  by (induction e) (auto intro!: option.map_cong)

lemma map_el_sel [simp]:
  "el_id (map_el f e) = el_id e"
  "tagName (map_el f e) = tagName e"
  "attributes (map_el f e) = attributes e"
  "childNodes (map_el f e) = map (map_el f) (childNodes e)"
  "shadowRoot (map_el f e) = map_option (map (map_el f)) (shadowRoot e)"
  "bjs_idx (map_el f e) = fst (f (el_id e) (bjs_idx e) (props e))"
  "props (map_el f e) = snd (f (el_id e) (bjs_idx e) (props e))"
  by (cases e; simp)+

lemma subtree_map_el:
  "subtree (map_option (map_el f) p) (map_el f e)
   = map (map_prod (map_option (map_el f)) (map_el f)) (subtree p e)"
proof (induction p e rule: subtree.induct)
  case (1 p i t a s pr ks sh)
  let ?e = "Element i t a s pr ks sh"
  let ?M = "map_prod (map_option (map_el f)) (map_el f)"
  have IH: "subtree (Some (map_el f ?e)) (map_el f k) = map ?M (subtree (Some ?e) k)"
    if "k \<in> set ks" for k
    using "1.IH"[OF that] by simp
  have step: "concat (map (subtree (Some (map_el f ?e))) (map (map_el f) ks))
        = concat (map (\<lambda>k. map ?M (subtree (Some ?e) k)) ks)"
    by (simp add: comp_def IH cong: map_cong del: map_el.simps)
  show ?case
    using step by (simp add: map_concat comp_def)
qed

lemma subtrees_map_el:
  "concat (map (subtree (map_option (map_el f) p)) (map (map_el f) ks))
   = map (map_prod (map_option (map_el f)) (map_el f)) (concat (map (subtree p) ks))"
  by (simp add: map_concat comp_def subtree_map_el)

lemma descendants_map_el:
  "descendants (map_node (map_el f) rt)
   = map (map_prod (map_option (map_el f)) (map_el f)) (descendants rt)"
proof (cases rt)
  case (Document ks)
  then show ?thesis using subtrees_map_el[of f None ks] by simp
next
  case (ShadowRoot ks)
  then show ?thesis using subtrees_map_el[of f None ks] by simp
next
  case (ElementNode e)
  then show ?thesis using subtrees_map_el[of f "Some e" "childNodes e"] by simp
qed

lemma querySelectorAll_map_el:
  assumes "\<And>p e. sel' (map_option (map_el f) p) (map_el f e) = sel p e"
  shows "querySelectorAll sel' (map_node (map_el f) rt) = map (map_el f) (querySelectorAll sel rt)"
  unfolding querySelectorAll_def descendants_map_el
  by (induction "descendants rt") (auto simp: filter_map comp_def assms split_def)

lemma deepQueryAll_map_el:
  assumes "\<And>p e. sel' (map_option (map_el f) p) (map_el f e) = sel p e"
  shows "deepQueryAll (map_node (map_el f) rt) sel' = map (map_el f) (deepQueryAll rt sel)"
  using assms
proof (induction rt sel rule: deepQueryAll.induct)
  case (1 rt sel)
  let ?F = "map_el f"
  have star: "querySelectorAll star (map_node ?F rt) = map ?F (querySelectorAll star rt)"
    by (rule querySelectorAll_map_el) (simp add: star_def)
  have sel: "querySelectorAll sel' (map_node ?F rt) = map ?F (querySelectorAll sel rt)"
    by (rule querySelectorAll_map_el) (rule "1.prems")
  have inner: "(case shadowRoot (?F el) of None \<Rightarrow> []
                | Some sr \<Rightarrow> deepQueryAll (ShadowRoot sr) sel')
             = map ?F (case shadowRoot el of None \<Rightarrow> []
                | Some sr \<Rightarrow> deepQueryAll (ShadowRoot sr) sel)"
    if "el \<in> set (querySelectorAll star rt)" for el
  proof (cases "shadowRoot el")
    case None
    then show ?thesis by simp
  next
    case (Some sr)
    from "1.IH"[OF that Some] "1.prems"
    have "deepQueryAll (ShadowRoot (map ?F sr)) sel' = map ?F (deepQueryAll (ShadowRoot sr) sel)"
      by simp
    with Some show ?thesis by simp
  qed
  have shadows:
    "map (\<lambda>el. case shadowRoot el of None \<Rightarrow> []
                  | Some sr \<Rightarrow> deepQueryAll (ShadowRoot sr) sel')
         (map ?F (querySelectorAll star rt))
     = map (\<lambda>el. map ?F (case shadowRoot el of None \<Rightarrow> []
                  | Some sr \<Rightarrow> deepQueryAll (ShadowRoot sr) sel))
         (querySelectorAll star rt)"
    unfolding map_map comp_def by (rule map_cong[OF refl]) (rule inner)
  show ?case
    unfolding deepQueryAll.simps[of "map_node ?F rt" sel'] deepQueryAll.simps[of rt sel]
      sel star shadows
    by (simp add: map_concat comp_def)
qed

lemma page_elements_map_el: "page_elements (map (map_el f) doc) = map (map_el f) (page_elements doc)"
  using deepQueryAll_map_el[of star f star "Document doc"]
  by (simp add: page_elements_def star_def)

subsection \<open>Where the dialog comes from\<close>






subsection \<open>Stamps and their resolution\<close>

lemma setStamp_sel [simp]:
  "el_id (setStamp i n e) = el_id e"
  "tagName (setStamp i n e) = tagName e"
  "attributes (setStamp i n e) = attributes e"
  "props (setStamp i n e) = props e"
  "bjs_idx (setStamp i n e) = (if el_id e = i then Some n else bjs_idx e)"
  by (cases e; simp)+

lemma clearStamp_sel [simp]:
  "el_id (clearStamp e) = el_id e"
  "tagName (clearStamp e) = tagName e"
  "attributes (clearStamp e) = attributes e"
  "props (clearStamp e) = props e"
  "bjs_idx (clearStamp e) = None"
  by (cases e; simp)+

lemma stamped_sel [simp]:
  "el_id (stamped ks n e) = el_id e"
  "tagName (stamped ks n e) = tagName e"
  "attributes (stamped ks n e) = attributes e"
  "props (stamped ks n e) = props e"
  by (induction ks n e rule: stamped.induct) simp_all

lemma stamped_other:
  "el_id e \<notin> el_id ` set ks \<Longrightarrow> bjs_idx (stamped ks n e) = bjs_idx e"
  by (induction ks n e rule: stamped.induct) auto

lemma stamped_at:
  "distinct (map el_id ks) \<Longrightarrow> p < length ks \<Longrightarrow> el_id e = el_id (ks ! p)
   \<Longrightarrow> bjs_idx (stamped ks n e) = Some (n + p)"
proof (induction ks n e arbitrary: p rule: stamped.induct)
  case (1 n e)
  then show ?case by simp
next
  case (2 k ks n e)
  show ?case
  proof (cases p)
    case 0
    with 2 have "el_id e = el_id k" "el_id k \<notin> el_id ` set ks" by auto
    then have "bjs_idx (stamped ks (Suc n) (setStamp (el_id k) n e)) = Some n"
      by (subst stamped_other) auto
    with 0 show ?thesis by simp
  next
    case (Suc q)
    with 2 have "bjs_idx (stamped ks (Suc n) (setStamp (el_id k) n e)) = Some (Suc n + q)"
      by (intro "2.IH") auto
    with Suc show ?thesis by simp
  qed
qed

lemma stamped_iff:
  assumes "distinct (map el_id ks)" and "bjs_idx e = None"
  shows "bjs_idx (stamped ks 0 e) = Some i \<longleftrightarrow> i < length ks \<and> el_id e = el_id (ks ! i)"
proof (cases "el_id e \<in> el_id ` set ks")
  case False
  then have "bjs_idx (stamped ks 0 e) = None" using assms(2) by (simp add: stamped_other)
  moreover have "\<not> (i < length ks \<and> el_id e = el_id (ks ! i))" using False by force
  ultimately show ?thesis by simp
next
  case True
  then obtain p where p: "p < length ks" "el_id e = el_id (ks ! p)"
    by (auto simp: in_set_conv_nth)
  from stamped_at[OF assms(1) p] have s: "bjs_idx (stamped ks 0 e) = Some p" by simp
  have "i = p" if "i < length ks" "el_id e = el_id (ks ! i)"
    using that p assms(1) by (simp add: nth_eq_iff_index_eq[of "map el_id ks" i p, symmetric])
  with s p show ?thesis by auto
qed

lemma stamp_all_map: "stamp_all ks n doc = map (stamped ks n) doc"
  by (induction ks n doc rule: stamp_all.induct) simp_all

lemma map_el_id: "map_el (\<lambda>j s pr. (s, pr)) e = e"
proof (induction e)
  case (Element i t a s pr ks sh)
  have ks: "map (map_el (\<lambda>j s pr. (s, pr))) ks = ks"
    using Element.IH(1) by (simp add: map_idI)
  have sh: "map_option (map (map_el (\<lambda>j s pr. (s, pr)))) sh = sh"
  proof (cases sh)
    case None
    then show ?thesis by simp
  next
    case (Some sr)
    then have "map (map_el (\<lambda>j s pr. (s, pr))) sr = sr"
      using Element.IH(2) by (simp add: map_idI)
    with Some show ?thesis by simp
  qed
  show ?case by (simp add: ks sh)
qed

lemma stamped_map_el: "\<exists>f. stamped ks n = map_el f"
proof (induction ks arbitrary: n)
  case Nil
  have "stamped [] n e = map_el (\<lambda>j s pr. (s, pr)) e" for e
    by (simp add: map_el_id)
  then show ?case by (intro exI[of _ "\<lambda>j s pr. (s, pr)"]) auto
next
  case (Cons k ks)
  from Cons[of "Suc n"] obtain g where g: "stamped ks (Suc n) = map_el g" by blast
  let ?h = "\<lambda>j s pr. (if j = el_id k then Some n else s, pr)"
  have "map_el g (map_el ?h e) = map_el (\<lambda>j s pr. g j (fst (?h j s pr)) (snd (?h j s pr))) e" for e
    by (induction e) (auto intro!: option.map_cong simp: option.map_comp comp_def)
  then have "stamped (k # ks) n e = map_el (\<lambda>j s pr. g j (fst (?h j s pr)) (snd (?h j s pr))) e" for e
    by (simp add: g setStamp_map_el)
  then show ?case by blast
qed

lemma page_elements_stamp_all:
  "page_elements (stamp_all ks n doc) = map (stamped ks n) (page_elements doc)"
proof -
  obtain f where f: "stamped ks n = map_el f" using stamped_map_el by blast
  show ?thesis unfolding stamp_all_map f by (rule page_elements_map_el)
qed

lemma page_elements_clear:
  "page_elements (deepClearStamps doc) = map clearStamp (page_elements doc)"
proof -
  have c: "clearStamp = map_el (\<lambda>j s pr. (None, pr))" by (rule ext) (rule clearStamp_map_el)
  show ?thesis unfolding deepClearStamps_def c by (rule page_elements_map_el)
qed


lemma first_some_Some: "first_some f xs = Some y \<Longrightarrow> \<exists>x\<in>set xs. f x = Some y"
  by (induction xs) (auto split: option.splits)

lemma first_some_None: "first_some f xs = None \<longleftrightarrow> (\<forall>x\<in>set xs. f x = None)"
  by (induction xs) (auto split: option.splits)

lemma querySelector_Some: "querySelector sel rt = Some e \<Longrightarrow> e \<in> set (querySelectorAll sel rt)"
  by (auto simp: querySelector_def split: list.splits)

lemma querySelector_None: "querySelector sel rt = None \<longleftrightarrow> querySelectorAll sel rt = []"
  by (auto simp: querySelector_def split: list.splits)

lemma querySelectorAll_stamp_is:
  "e \<in> set (querySelectorAll (stamp_is i) rt)
   \<longleftrightarrow> e \<in> set (querySelectorAll star rt) \<and> bjs_idx e = Some i"
  by (auto simp: querySelectorAll_def stamp_is_def star_def)

lemma querySelectorAll_any_stamp:
  "e \<in> set (querySelectorAll any_stamp rt)
   \<longleftrightarrow> e \<in> set (querySelectorAll star rt) \<and> bjs_idx e \<noteq> None"
  by (auto simp: querySelectorAll_def any_stamp_def star_def)

lemma deepQueryAll_star_set:
  "set (deepQueryAll rt star) =
     set (querySelectorAll star rt)
     \<union> (\<Union>el\<in>set (querySelectorAll star rt).
          case shadowRoot el of None \<Rightarrow> {} | Some sr \<Rightarrow> set (deepQueryAll (ShadowRoot sr) star))"
  by (subst deepQueryAll.simps) (auto split: option.splits)

lemma deepQueryStamp_sound:
  "deepQueryStamp rt i = Some e \<Longrightarrow> e \<in> set (deepQueryAll rt star) \<and> bjs_idx e = Some i"
proof (induction rt i arbitrary: e rule: deepQueryStamp.induct)
  case (1 rt idx)
  show ?case
  proof (cases "querySelector (stamp_is idx) rt")
    case (Some found)
    with "1.prems" have "found = e" by (simp add: deepQueryStamp.simps[of rt idx])
    with querySelector_Some[OF Some] show ?thesis
      by (auto simp: querySelectorAll_stamp_is deepQueryAll_star_set[of rt])
  next
    case None
    with "1.prems" have "first_some (\<lambda>el. case shadowRoot el of None \<Rightarrow> None
                           | Some sr \<Rightarrow> deepQueryStamp (ShadowRoot sr) idx)
                     (querySelectorAll star rt) = Some e"
      by (simp add: deepQueryStamp.simps[of rt idx])
    from first_some_Some[OF this] obtain el sr where
      el: "el \<in> set (querySelectorAll star rt)" "shadowRoot el = Some sr"
        "deepQueryStamp (ShadowRoot sr) idx = Some e"
      by (auto split: option.splits)
    from "1.IH"[OF None el] have "e \<in> set (deepQueryAll (ShadowRoot sr) star)" "bjs_idx e = Some idx"
      by simp_all
    with el(1,2) show ?thesis
      by (subst deepQueryAll_star_set) force
  qed
qed

lemma deepQueryStamp_complete:
  "e \<in> set (deepQueryAll rt star) \<Longrightarrow> bjs_idx e = Some i \<Longrightarrow> deepQueryStamp rt i \<noteq> None"
proof (induction rt i arbitrary: e rule: deepQueryStamp.induct)
  case (1 rt idx)
  show ?case
  proof (cases "querySelector (stamp_is idx) rt")
    case (Some found)
    then show ?thesis by (simp add: deepQueryStamp.simps[of rt idx])
  next
    case None
    then have nolight: "\<forall>x\<in>set (querySelectorAll star rt). bjs_idx x \<noteq> Some idx"
      using querySelectorAll_stamp_is[of _ idx rt] by (auto simp: querySelector_None)
    with "1.prems" obtain el sr where
      el: "el \<in> set (querySelectorAll star rt)" "shadowRoot el = Some sr"
        "e \<in> set (deepQueryAll (ShadowRoot sr) star)"
      unfolding deepQueryAll_star_set[of rt] by (auto split: option.splits)
    from "1.IH"[OF None el(1,2) el(3) "1.prems"(2)]
    have "deepQueryStamp (ShadowRoot sr) idx \<noteq> None" .
    with el(1,2) have "first_some (\<lambda>el. case shadowRoot el of None \<Rightarrow> None
                           | Some sr \<Rightarrow> deepQueryStamp (ShadowRoot sr) idx)
                     (querySelectorAll star rt) \<noteq> None"
      unfolding first_some_None by force
    with None show ?thesis by (simp add: deepQueryStamp.simps[of rt idx])
  qed
qed

lemma subseq_set: "subseq xs ys \<Longrightarrow> set xs \<subseteq> set ys"
  by (auto dest: list_emb_set)

lemma subseq_distinct_left: "subseq xs ys \<Longrightarrow> distinct ys \<Longrightarrow> distinct xs"
  by (induction rule: list_emb.induct) (auto dest: subseq_set)

lemma subseq_distinct_map:
  "subseq xs ys \<Longrightarrow> distinct (map f ys) \<Longrightarrow> distinct (map f xs)"
  using subseq_distinct_left[OF subseq_map] by blast

lemma subseq_concat_map:
  "(\<And>x. x \<in> set xs \<Longrightarrow> subseq (f x) (g x)) \<Longrightarrow> subseq (concat (map f xs)) (concat (map g xs))"
  by (induction xs) (auto intro: list_emb_append_mono)

lemma querySelectorAll_subseq: "subseq (querySelectorAll sel rt) (querySelectorAll star rt)"
  unfolding querySelectorAll_def star_def
  by (simp add: subseq_map)

lemma deepQueryAll_subseq: "subseq (deepQueryAll rt sel) (deepQueryAll rt star)"
proof (induction rt sel rule: deepQueryAll.induct)
  case (1 rt sel)
  have "subseq (concat (map (\<lambda>el. case shadowRoot el of None \<Rightarrow> []
              | Some sr \<Rightarrow> deepQueryAll (ShadowRoot sr) sel) (querySelectorAll star rt)))
          (concat (map (\<lambda>el. case shadowRoot el of None \<Rightarrow> []
              | Some sr \<Rightarrow> deepQueryAll (ShadowRoot sr) star) (querySelectorAll star rt)))"
    by (rule subseq_concat_map) (auto split: option.splits intro: "1.IH")
  with querySelectorAll_subseq[of sel rt] show ?case
    unfolding deepQueryAll.simps[of rt sel] deepQueryAll.simps[of rt star]
    by (rule list_emb_append_mono)
qed

lemma kept_subseq: "subseq (kept td xs sn) xs"
  by (induction xs arbitrary: sn) auto

lemma sorted_candidates_distinct:
  assumes "distinct (map el_id xs)"
  shows "distinct (map el_id (sorted_candidates td xs))"
proof -
  have inj: "inj_on el_id (set xs)" using assms by (simp add: distinct_map)
  have "el_id ` set (filter (inDialog td) xs) \<inter> el_id ` set (filter (\<lambda>x. \<not> inDialog td x) xs) = {}"
    using inj by (auto dest: inj_onD)
  with assms show ?thesis
    by (simp add: sorted_candidates_split distinct_map_filter)
qed

lemma scan_kept_page:
  assumes "distinct (map el_id (page_elements (scan_doc pg)))"
  shows "distinct (map el_id (scan_kept None pg))
       \<and> set (scan_kept None pg) \<subseteq> set (page_elements (scan_doc pg))"
proof -
  let ?I = "deepQueryAll (Document (scan_doc pg)) interactive_selectors"
  have sub: "subseq ?I (page_elements (scan_doc pg))"
    unfolding page_elements_def by (rule deepQueryAll_subseq)
  then have dI: "distinct (map el_id ?I)"
    using assms by (rule subseq_distinct_map)
  have K: "scan_kept None pg = kept (scan_dialog pg) (sorted_candidates (scan_dialog pg) ?I) []"
    by (simp add: scan_kept_def scan_candidates_def scan_root_def)
  have "subseq (scan_kept None pg) (sorted_candidates (scan_dialog pg) ?I)"
    unfolding K by (rule kept_subseq)
  then have 1: "distinct (map el_id (scan_kept None pg))"
    using sorted_candidates_distinct[OF dI] by (rule subseq_distinct_map)
  have "set (scan_kept None pg) \<subseteq> set (sorted_candidates (scan_dialog pg) ?I)"
    unfolding K by (rule kept_subset)
  also have "\<dots> \<subseteq> set ?I" by (auto simp: sorted_candidates_split)
  also have "\<dots> \<subseteq> set (page_elements (scan_doc pg))" using sub by (rule subseq_set)
  finally show ?thesis using 1 by simp
qed

lemma scan_twice: "ELEMENTS_JS sel (fst (ELEMENTS_JS sel pg)) = ELEMENTS_JS sel pg"
  unfolding ELEMENTS_JS_def[of sel "fst (ELEMENTS_JS sel pg)"] deepClearStamps_after_scan
  unfolding ELEMENTS_JS_def[of sel pg] ..

lemma scan_page_flag: "bjsDeepQuery (fst (ELEMENTS_JS sel pg))"
  by (simp add: ELEMENTS_JS_def Let_def split: option.splits)

lemma resolve_after_scan:
  assumes wf: "distinct (map el_id (page_elements (document pg)))"
    and i: "i < length (scan_kept None pg)"
  shows "resolve (fst (ELEMENTS_JS None pg)) i
         = Some (stamped (scan_kept None pg) 0 (scan_kept None pg ! i))"
proof -
  let ?K = "scan_kept None pg"
  let ?doc0 = "scan_doc pg"
  let ?doc' = "document (fst (ELEMENTS_JS None pg))"
  have wf0: "distinct (map el_id (page_elements ?doc0))"
    using wf by (simp add: scan_doc_def page_elements_clear comp_def)
  have clear0: "\<forall>e\<in>set (page_elements ?doc0). bjs_idx e = None"
    by (auto simp: scan_doc_def page_elements_clear)
  from scan_kept_page[OF wf0] have dK: "distinct (map el_id ?K)"
    and subK: "set ?K \<subseteq> set (page_elements ?doc0)" by simp_all
  have els: "page_elements ?doc' = map (stamped ?K 0) (page_elements ?doc0)"
    by (simp add: scan_document page_elements_stamp_all)
  have Ki: "?K ! i \<in> set (page_elements ?doc0)" using i subK by auto
  then have ex: "stamped ?K 0 (?K ! i) \<in> set (deepQueryAll (Document ?doc') star)"
    using els by (simp add: page_elements_def)
  have st: "bjs_idx (stamped ?K 0 (?K ! i)) = Some i"
    using stamped_at[OF dK i, of "?K ! i" 0] by simp
  from deepQueryStamp_complete[OF ex st]
  obtain e' where e': "deepQueryStamp (Document ?doc') i = Some e'" by auto
  from deepQueryStamp_sound[OF e']
  have "e' \<in> set (page_elements ?doc')" and se': "bjs_idx e' = Some i"
    by (simp_all add: page_elements_def)
  then obtain e0 where e0: "e0 \<in> set (page_elements ?doc0)" "e' = stamped ?K 0 e0"
    unfolding els by auto
  have "bjs_idx e0 = None" using clear0 e0(1) by simp
  from stamped_iff[OF dK this, of i] se' e0(2) have "el_id e0 = el_id (?K ! i)" by simp
  moreover have "inj_on el_id (set (page_elements ?doc0))" using wf0 by (simp add: distinct_map)
  ultimately have "e0 = ?K ! i" using e0(1) Ki by (auto dest: inj_onD)
  with e' e0(2) show ?thesis
    by (simp add: resolve_def scan_page_flag)
qed

lemma no_stamps_unindexed:
  assumes "\<forall>e\<in>set (page_elements (document pg)). bjs_idx e = None"
  shows "ensureIndexed pg = (fst (ELEMENTS_JS None pg), True)"
proof -
  let ?rt = "Document (document pg)"
  have light: "set (querySelectorAll star ?rt) \<subseteq> set (page_elements (document pg))"
    by (auto simp: page_elements_split)
  have "querySelectorAll any_stamp ?rt = []"
  proof (rule ccontr)
    assume "querySelectorAll any_stamp ?rt \<noteq> []"
    then obtain e where "e \<in> set (querySelectorAll any_stamp ?rt)"
      by (cases "querySelectorAll any_stamp ?rt") auto
    then have "e \<in> set (querySelectorAll star ?rt)" "bjs_idx e \<noteq> None"
      by (simp_all add: querySelectorAll_any_stamp)
    with light assms show False by auto
  qed
  then have 1: "querySelector any_stamp ?rt = None" by (simp add: querySelector_None)
  have 2: "deepQueryStamp ?rt 0 = None"
  proof (rule ccontr)
    assume "deepQueryStamp ?rt 0 \<noteq> None"
    then obtain e where "deepQueryStamp ?rt 0 = Some e" by auto
    from deepQueryStamp_sound[OF this] assms show False by (auto simp: page_elements_def)
  qed
  show ?thesis by (simp add: ensureIndexed_def 1 2)
qed

lemma ensureIndexed_after_scan:
  "fst (ensureIndexed (fst (ELEMENTS_JS None pg))) = fst (ELEMENTS_JS None pg)"
  by (simp add: ensureIndexed_def scan_twice)

lemma stamped_click [simp]:
  "click_label (stamped ks n e) = click_label e"
  "click_desc (stamped ks n e) = click_desc e"
  "center_x (stamped ks n e) = center_x e"
  "center_y (stamped ks n e) = center_y e"
  by (simp_all add: click_label_def click_desc_def center_x_def center_y_def
      attr_or_empty_def getAttribute_def)

subsection \<open>What the walker returns\<close>

lemma deep_subtree_set:
  "set (deep_subtree p e) = set (subtree p e) \<union> (\<Union>(q, x)\<in>set (subtree p e). shadow_below x)"
proof (induction p e rule: deep_subtree.induct)
  case (1 p i t a s pr ks sh)
  let ?e = "Element i t a s pr ks sh"
  have kids: "set (deep_subtree (Some ?e) k)
      = set (subtree (Some ?e) k) \<union> (\<Union>(q, x)\<in>set (subtree (Some ?e) k). shadow_below x)"
    if "k \<in> set ks" for k
    using "1.IH"(1)[OF that] .
  have own: "shadow_below ?e = set (case sh of None \<Rightarrow> [] | Some sr \<Rightarrow> concat (map (deep_subtree None) sr))"
    by (auto simp: shadow_below_def split: option.splits)
  have "set (deep_subtree p ?e)
        = {(p, ?e)} \<union> (\<Union>k\<in>set ks. set (deep_subtree (Some ?e) k)) \<union> shadow_below ?e"
    unfolding own by (simp add: Un_commute Un_left_commute)
  also have "(\<Union>k\<in>set ks. set (deep_subtree (Some ?e) k))
        = (\<Union>k\<in>set ks. set (subtree (Some ?e) k) \<union> (\<Union>(q, x)\<in>set (subtree (Some ?e) k). shadow_below x))"
    using kids by simp
  finally show ?case by (simp del: deep_subtree.simps) blast
qed

lemma deep_descendants_set:
  "set (deep_descendants rt) = set (descendants rt) \<union> (\<Union>(q, x)\<in>set (descendants rt). shadow_below x)"
  by (cases rt) (auto simp: deep_subtree_set)

lemma deepQueryAll_set:
  "set (deepQueryAll rt sel) = snd ` {(p, e). (p, e) \<in> set (deep_descendants rt) \<and> sel p e}"
proof (induction rt sel rule: deepQueryAll.induct)
  case (1 rt sel)
  let ?M = "\<lambda>r. snd ` {(p, e). (p, e) \<in> set (deep_descendants r) \<and> sel p e}"
  have inner: "set (case shadowRoot el of None \<Rightarrow> [] | Some sr \<Rightarrow> deepQueryAll (ShadowRoot sr) sel)
        = snd ` {(p, e). (p, e) \<in> shadow_below el \<and> sel p e}"
    if "el \<in> set (querySelectorAll star rt)" for el
    using "1.IH"[OF that] by (cases "shadowRoot el") (simp_all add: shadow_below_def)
  have "set (deepQueryAll rt sel)
      = set (querySelectorAll sel rt)
        \<union> (\<Union>el\<in>set (querySelectorAll star rt).
             snd ` {(p, e). (p, e) \<in> shadow_below el \<and> sel p e})"
    by (subst deepQueryAll.simps) (simp add: inner)
  also have "\<dots> = ?M rt"
    unfolding deep_descendants_set querySelectorAll_def star_def
    by (auto simp: image_iff) (force+)?
  finally show ?case .
qed

lemma walker_three_levels_deep:
  "deepQueryAll (Document (document demo_deep_page)) interactive_selectors = [demo_ok 54]
   \<and> snd (ELEMENTS_JS None demo_deep_page) = snd (ELEMENTS_JS None demo_single_page)
   \<and> snd (snd (cmdClick (Some 0) demo_deep_page)) = Clicked ''button'' ''OK''"
  by code_simp

subsection \<open>Lower case, and the scripts of the type command\<close>

lemma lower_char_letters: "map lower_char upper_letters = lower_letters"
  by code_simp

lemma lower_char_other: "c \<notin> set upper_letters \<Longrightarrow> lower_char c = c"
proof -
  assume c: "c \<notin> set upper_letters"
  have "length upper_letters = length lower_letters"
    by (simp add: upper_letters_def lower_letters_def)
  with c have "map_of (zip upper_letters lower_letters) c = None"
    by (simp add: map_of_zip_is_None)
  then show ?thesis by (simp add: lower_char_def)
qed

lemma toLowerCase_latin1:
  "toLowerCase [CHR ''X'', CHR ''-'', CHR 0xC9] = [CHR ''x'', CHR ''-'', CHR 0xE9]
   \<and> toLowerCase [CHR 0xC0, CHR 0xD6, CHR 0xD7, CHR 0xD8, CHR 0xDE, CHR 0xDF, CHR 0xFF]
       = [CHR 0xE0, CHR 0xF6, CHR 0xD7, CHR 0xF8, CHR 0xFE, CHR 0xDF, CHR 0xFF]
   \<and> toLowerCase ''BUTTON @[`{'' = ''button @[`{''"
  by code_simp

lemma setValue_sel [simp]:
  "el_id (setValue i v e) = el_id e"
  "tagName (setValue i v e) = tagName e"
  "attributes (setValue i v e) = attributes e"
  "bjs_idx (setValue i v e) = bjs_idx e"
  "props (setValue i v e) = (if el_id e = i then (props e)\<lparr>prop_value := v\<rparr> else props e)"
  by (cases e; simp)+

lemma first_some_map:
  "(\<And>x. x \<in> set xs \<Longrightarrow> g' (F x) = map_option F (g x))
   \<Longrightarrow> first_some g' (map F xs) = map_option F (first_some g xs)"
  by (induction xs) (auto split: option.splits)

lemma querySelector_map_el:
  assumes "\<And>p e. sel' (map_option (map_el f) p) (map_el f e) = sel p e"
  shows "querySelector sel' (map_node (map_el f) rt) = map_option (map_el f) (querySelector sel rt)"
  unfolding querySelector_def querySelectorAll_map_el[of sel' f sel, OF assms]
  by (simp split: list.splits)

lemma deepQueryStamp_map_el:
  assumes keep: "\<And>j s pr. fst (f j s pr) = s"
  shows "deepQueryStamp (map_node (map_el f) rt) idx = map_option (map_el f) (deepQueryStamp rt idx)"
proof (induction rt idx rule: deepQueryStamp.induct)
  case (1 rt idx)
  let ?F = "map_el f"
  have q: "querySelector (stamp_is idx) (map_node ?F rt)
           = map_option ?F (querySelector (stamp_is idx) rt)"
    by (rule querySelector_map_el) (simp add: stamp_is_def keep)
  have star: "querySelectorAll star (map_node ?F rt) = map ?F (querySelectorAll star rt)"
    by (rule querySelectorAll_map_el) (simp add: star_def)
  show ?case
  proof (cases "querySelector (stamp_is idx) rt")
    case (Some found)
    then show ?thesis
      by (simp add: deepQueryStamp.simps[of "map_node ?F rt"] deepQueryStamp.simps[of rt] q)
  next
    case None
    have inner: "(case shadowRoot (?F el) of None \<Rightarrow> None
                  | Some sr \<Rightarrow> deepQueryStamp (ShadowRoot sr) idx)
               = map_option ?F (case shadowRoot el of None \<Rightarrow> None
                  | Some sr \<Rightarrow> deepQueryStamp (ShadowRoot sr) idx)"
      if "el \<in> set (querySelectorAll star rt)" for el
    proof (cases "shadowRoot el")
      case None
      then show ?thesis by simp
    next
      case (Some sr)
      from "1.IH"[OF \<open>querySelector (stamp_is idx) rt = None\<close> that Some]
      show ?thesis using Some by simp
    qed
    have "first_some (\<lambda>el. case shadowRoot el of None \<Rightarrow> None
                  | Some sr \<Rightarrow> deepQueryStamp (ShadowRoot sr) idx)
            (map ?F (querySelectorAll star rt))
          = map_option ?F (first_some (\<lambda>el. case shadowRoot el of None \<Rightarrow> None
                  | Some sr \<Rightarrow> deepQueryStamp (ShadowRoot sr) idx) (querySelectorAll star rt))"
      by (rule first_some_map) (rule inner)
    with None show ?thesis
      by (simp add: deepQueryStamp.simps[of "map_node ?F rt"] deepQueryStamp.simps[of rt] q star)
  qed
qed

lemma resolve_setValue:
  "resolve (pg\<lparr>document := map (setValue j v) (document pg)\<rparr>) i
   = map_option (setValue j v) (resolve pg i)"
proof -
  let ?f = "\<lambda>k s pr. (s, if k = j then pr\<lparr>prop_value := v\<rparr> else pr)"
  have sv: "setValue j v = map_el ?f" by (rule ext) (rule setValue_map_el)
  have d: "deepQueryStamp (Document (map (map_el ?f) (document pg))) i
           = map_option (map_el ?f) (deepQueryStamp (Document (document pg)) i)"
    using deepQueryStamp_map_el[of ?f "Document (document pg)" i] by simp
  have q: "querySelector (stamp_is i) (Document (map (map_el ?f) (document pg)))
           = map_option (map_el ?f) (querySelector (stamp_is i) (Document (document pg)))"
    using querySelector_map_el[of "stamp_is i" ?f "stamp_is i" "Document (document pg)"]
    by (simp add: stamp_is_def)
  show ?thesis
    unfolding sv resolve_def
    by (simp add: d q split: option.splits)
qed

lemma cmdType_resolved:
  assumes "text \<noteq> []" and "resolve (fst (ensureIndexed pg)) i = Some el"
  shows "cmdType thr (Some i) text pg =
    (let pg1 = fst (ensureIndexed pg);
         click = [ScrollIntoView (el_id el),
                  MousePressed (center_x el) (center_y el),
                  MouseReleased (center_x el) (center_y el)];
         inserted = (if thr then concat (map (\<lambda>c. [KeyDown [c], KeyUp [c]]) text)
                     else [InsertText text])
     in if \<not> (el_tag el = ''input'' \<or> el_tag el = ''textarea''
                \<or> isContentEditable (props el) \<or> el_role el = ''textbox'')
        then (pg1, [], Not_a_text_input i (el_tag el))
        else if isContentEditable (props el)
        then (pg1,
              click @ [SelectNodeContents (el_id el), KeyDown ''Backspace'', KeyUp ''Backspace'']
                @ inserted,
              Typed i (el_tag el) True)
        else if el_tag el = ''input'' \<and> prop_type (props el) \<noteq> ''file''
        then (pg1\<lparr>document :=
                    map (setValue (el_id el) text) (map (setValue (el_id el) []) (document pg1))\<rparr>,
              click @ [SetValue (el_id el) []] @ inserted
                @ [SetValue (el_id el) text,
                   DispatchEvent (el_id el) ''input'', DispatchEvent (el_id el) ''change''],
              Typed i (el_tag el) False)
        else (pg1\<lparr>document := map (setValue (el_id el) []) (document pg1)\<rparr>,
              click @ [SetValue (el_id el) []] @ inserted,
              Typed i (el_tag el) False))"
proof -
  let ?pg1 = "fst (ensureIndexed pg)"
  let ?pg2 = "?pg1\<lparr>document := map (setValue (el_id el) []) (document ?pg1)\<rparr>"
  have r2: "resolve ?pg2 i = Some (setValue (el_id el) [] el)"
    by (simp add: resolve_setValue assms(2))
  have tag2: "el_tag (setValue (el_id el) [] el) = el_tag el"
    by (simp add: el_tag_def)
  show ?thesis
    using assms
    by (simp add: cmdType_def typeable_def Let_def clear_content_def set_value_backup_def
        insert_text_def r2 tag2 input_setter_accepts_def)
qed

lemma stamped_type [simp]:
  "el_tag (stamped ks n e) = el_tag e"
  "el_role (stamped ks n e) = el_role e"
  by (simp_all add: el_tag_def el_role_def attr_or_empty_def getAttribute_def)

section \<open>The claims\<close>

text \<open>
  C1.  From the document the walker reaches every shadow root, to any depth (lemmas
  \<open>deepQueryAll_set\<close> and \<open>walker_three_levels_deep\<close>).  From an element it starts at the
  children of the element: the shadow root that the scan root itself hosts is never
  entered.  On the example page the scan with a selector for the custom element \<open>c1\<close>
  lists the submit input, the light child of \<open>c1\<close>, and neither the link nor the button
  in the shadow root of \<open>c1\<close>, which the scan of the whole document lists.
\<close>

theorem walker_skips_root_shadow:
  "querySelector (\<lambda>p e. tag_is e ''c1'') (Document (scan_doc demo_page)) = Some demo_host
   \<and> shadowRoot demo_host = Some [demo_link, demo_button]
   \<and> interactive_selectors None demo_link
   \<and> interactive_selectors None demo_button
   \<and> deepQueryAll (ElementNode demo_host) interactive_selectors = [demo_submit]
   \<and> snd (ELEMENTS_JS (Some (\<lambda>p e. tag_is e ''c1'')) demo_page)
       = Inr [\<lparr>label = ''input:submit'', desc = ''Send''\<rparr>]
   \<and> map label (projr (snd (ELEMENTS_JS None demo_page))) = [''input:submit'', ''link'', ''button'']"
  by code_simp

text \<open>
  C2.  The key of the loop is built from the description as derived, before the listing
  cuts it to 120 characters.  The two links of the example are in the same scope and
  have the same label; their descriptions have 128 characters and differ in the last, so
  their keys differ and both are listed, with the same label and the same listed
  description: the result holds two entries for one combination of scope, label and
  listed description.
\<close>

theorem dedup_counterexample:
  "map el_id (scan_visible None demo_stories_page) = [61, 62]
   \<and> el_scope (scan_dialog demo_stories_page) (scan_visible None demo_stories_page ! 0)
       = el_scope (scan_dialog demo_stories_page) (scan_visible None demo_stories_page ! 1)
   \<and> label (el_descriptor (scan_visible None demo_stories_page ! 0))
       = label (el_descriptor (scan_visible None demo_stories_page ! 1))
   \<and> desc (el_descriptor (scan_visible None demo_stories_page ! 0))
       = desc (el_descriptor (scan_visible None demo_stories_page ! 1))
   \<and> length (el_desc (scan_visible None demo_stories_page ! 0)) = 128
   \<and> el_desc (scan_visible None demo_stories_page ! 0)
       \<noteq> el_desc (scan_visible None demo_stories_page ! 1)
   \<and> map el_id (scan_kept None demo_stories_page) = [61, 62]
   \<and> length (projr (snd (ELEMENTS_JS None demo_stories_page))) = 2
   \<and> projr (snd (ELEMENTS_JS None demo_stories_page)) ! 0
       = projr (snd (ELEMENTS_JS None demo_stories_page)) ! 1"
  by code_simp

text \<open>
  C2, as amended.  The key of a candidate is the string \<open>scope|label|description\<close>, with
  the description as derived, before the listing cuts it to 120 characters.  Let \<open>cs\<close> be
  the visible candidates in the order of the loop (dialog first).  The scan lists exactly
  the candidates at the positions that hold the first occurrence of their key.  Hence, of
  two candidates with the same scope, label and derived description the later one is
  never listed; every candidate has a listed candidate with its key, at its position or
  before; and two candidates in different scopes (one in the dialog, one outside) are
  never collapsed: each is represented by a listed candidate of its own, even when label
  and description agree.
\<close>

theorem dedup_invariant:
  fixes sel :: "selector option" and pg :: page
  defines "td \<equiv> scan_dialog pg"
    and "cs \<equiv> scan_visible sel pg"
    and "ks \<equiv> first_positions (el_key (scan_dialog pg)) (scan_visible sel pg)"
  shows "scan_kept sel pg = map ((!) cs) ks
    \<and> (\<forall>rs. snd (ELEMENTS_JS sel pg) = Inr rs \<longrightarrow> rs = map (\<lambda>i. el_descriptor (cs ! i)) ks)
    \<and> (\<forall>i j. i < j \<and> j < length cs
            \<and> el_scope td (cs ! i) = el_scope td (cs ! j)
            \<and> el_label (cs ! i) = el_label (cs ! j)
            \<and> el_desc (cs ! i) = el_desc (cs ! j)
          \<longrightarrow> j \<notin> set ks)
    \<and> (\<forall>j. j < length cs
          \<longrightarrow> (\<exists>i\<in>set ks. i \<le> j \<and> el_key td (cs ! i) = el_key td (cs ! j)))
    \<and> (\<forall>i j. i < length cs \<and> j < length cs \<and> el_scope td (cs ! i) \<noteq> el_scope td (cs ! j)
          \<longrightarrow> (\<exists>i'\<in>set ks. \<exists>j'\<in>set ks. i' \<noteq> j' \<and> i' \<le> i \<and> j' \<le> j
                 \<and> el_key td (cs ! i') = el_key td (cs ! i)
                 \<and> el_key td (cs ! j') = el_key td (cs ! j)))"
proof -
  have 1: "scan_kept sel pg = map ((!) cs) ks"
    unfolding cs_def ks_def by (rule scan_kept_positions)
  have 2: "rs = map (\<lambda>i. el_descriptor (cs ! i)) ks" if "snd (ELEMENTS_JS sel pg) = Inr rs" for rs
    using that 1 by (auto simp: scan_results comp_def split: option.splits)
  have 3: "j \<notin> set ks"
    if "i < j" "j < length cs" "el_scope td (cs ! i) = el_scope td (cs ! j)"
       "el_label (cs ! i) = el_label (cs ! j)" "el_desc (cs ! i) = el_desc (cs ! j)" for i j
  proof -
    have "el_key td (cs ! i) = el_key td (cs ! j)" using that(3-5) by (rule el_key_triple)
    with that(1) show ?thesis unfolding ks_def td_def cs_def by (auto simp: first_positions_iff)
  qed
  have 4: "\<exists>i\<in>set ks. i \<le> j \<and> el_key td (cs ! i) = el_key td (cs ! j)" if "j < length cs" for j
    using first_positions_represent[OF that, of "el_key td"] unfolding ks_def td_def cs_def .
  have 5: "\<exists>i'\<in>set ks. \<exists>j'\<in>set ks. i' \<noteq> j' \<and> i' \<le> i \<and> j' \<le> j
                 \<and> el_key td (cs ! i') = el_key td (cs ! i)
                 \<and> el_key td (cs ! j') = el_key td (cs ! j)"
    if "i < length cs" "j < length cs" "el_scope td (cs ! i) \<noteq> el_scope td (cs ! j)" for i j
  proof -
    from 4[OF that(1)] obtain i' where i': "i' \<in> set ks" "i' \<le> i"
      "el_key td (cs ! i') = el_key td (cs ! i)" by blast
    from 4[OF that(2)] obtain j' where j': "j' \<in> set ks" "j' \<le> j"
      "el_key td (cs ! j') = el_key td (cs ! j)" by blast
    have "el_key td (cs ! i) \<noteq> el_key td (cs ! j)" using that(3) by (rule el_key_scope)
    with i'(3) j'(3) have "i' \<noteq> j'" by auto
    with i' j' show ?thesis by blast
  qed
  from 1 2 3 4 5 show ?thesis by blast
qed

theorem dedup_invariant_witness:
  "map el_id (scan_visible None demo_dialog_page) = [13, 14, 11, 15]
   \<and> map (el_scope (scan_dialog demo_dialog_page)) (scan_visible None demo_dialog_page)
       = [''modal'', ''modal'', ''page'', ''page'']
   \<and> map el_label (scan_visible None demo_dialog_page)
       = [''button'', ''button'', ''button'', ''button'']
   \<and> map el_desc (scan_visible None demo_dialog_page) = [''OK'', ''OK'', ''OK'', ''OK'']
   \<and> 1 \<notin> set (first_positions (el_key (scan_dialog demo_dialog_page))
                  (scan_visible None demo_dialog_page))
   \<and> first_positions (el_key (scan_dialog demo_dialog_page)) (scan_visible None demo_dialog_page)
       = [0, 2]
   \<and> map el_id (scan_kept None demo_dialog_page) = [13, 11]
   \<and> snd (ELEMENTS_JS None demo_dialog_page)
       = Inr [\<lparr>label = ''button'', desc = ''OK''\<rparr>, \<lparr>label = ''button'', desc = ''OK''\<rparr>]"
proof -
  let ?cs = "scan_visible None demo_dialog_page"
  let ?td = "scan_dialog demo_dialog_page"
  let ?ks = "first_positions (el_key ?td) ?cs"
  note T = dedup_invariant[of None demo_dialog_page]
  have a: "map el_id ?cs = [13, 14, 11, 15]" by code_simp
  have s: "map (el_scope ?td) ?cs = [''modal'', ''modal'', ''page'', ''page'']" by code_simp
  have l: "map el_label ?cs = [''button'', ''button'', ''button'', ''button'']" by code_simp
  have d: "map el_desc ?cs = [''OK'', ''OK'', ''OK'', ''OK'']" by code_simp
  have b: "?ks = [0, 2]" by code_simp
  have len: "length ?cs = 4" using arg_cong[OF a, of length] by simp
  have s01: "el_scope ?td (?cs ! 0) = el_scope ?td (?cs ! 1)"
    using arg_cong[OF s, of "\<lambda>xs. xs ! 0 = xs ! 1"] len by simp
  have l01: "el_label (?cs ! 0) = el_label (?cs ! 1)"
    using arg_cong[OF l, of "\<lambda>xs. xs ! 0 = xs ! 1"] len by simp
  have d01: "el_desc (?cs ! 0) = el_desc (?cs ! 1)"
    using arg_cong[OF d, of "\<lambda>xs. xs ! 0 = xs ! 1"] len by simp
  have later: "1 \<notin> set ?ks"
    using T[THEN conjunct2, THEN conjunct2, THEN conjunct1, rule_format, of 0 1]
      s01 l01 d01 len by simp
  have "scan_kept None demo_dialog_page = map ((!) ?cs) ?ks"
    using T by (rule conjunct1)
  then have c: "map el_id (scan_kept None demo_dialog_page) = map el_id [?cs ! 0, ?cs ! 2]"
    unfolding b by simp
  have n: "el_id (?cs ! 0) = 13" "el_id (?cs ! 2) = 11" by code_simp+
  have r: "snd (ELEMENTS_JS None demo_dialog_page)
       = Inr [\<lparr>label = ''button'', desc = ''OK''\<rparr>, \<lparr>label = ''button'', desc = ''OK''\<rparr>]"
    by code_simp
  from a s l d later b c n r show ?thesis by simp
qed

text \<open>
  C3.  The dialog of a scan is the last rendered element, in document order, whose role
  is \<open>dialog\<close> or whose \<open>aria-modal\<close> is \<open>true\<close>, else the last rendered element of role
  \<open>presentation\<close>, else none (\<open>spec_topDialog\<close>).  The sorted candidates are the
  candidates inside the dialog (the dialog itself and its descendants; \<open>contains\<close> does
  not enter shadow roots), in their order, followed by the others, in their order.  The
  listing and the stamps follow the kept elements in that order, so a listed element
  inside the dialog has a smaller index than every listed element outside.
\<close>

theorem modal_bias:
  assumes "scan_root sel (scan_doc pg) = Some rt"
  shows "scan_dialog pg = spec_topDialog (scan_doc pg)
    \<and> scan_candidates sel pg =
        filter (inDialog (scan_dialog pg)) (deepQueryAll rt interactive_selectors)
        @ filter (\<lambda>x. \<not> inDialog (scan_dialog pg) x) (deepQueryAll rt interactive_selectors)
    \<and> snd (ELEMENTS_JS sel pg) = Inr (map el_descriptor (scan_kept sel pg))
    \<and> document (fst (ELEMENTS_JS sel pg)) = stamp_all (scan_kept sel pg) 0 (scan_doc pg)
    \<and> (\<forall>i j. i < length (scan_kept sel pg) \<and> j < length (scan_kept sel pg)
            \<and> inDialog (scan_dialog pg) (scan_kept sel pg ! i)
            \<and> \<not> inDialog (scan_dialog pg) (scan_kept sel pg ! j)
          \<longrightarrow> i < j)"
proof -
  have 1: "scan_dialog pg = spec_topDialog (scan_doc pg)"
    by (simp add: scan_dialog_def topDialog_spec)
  have 2: "scan_candidates sel pg =
        filter (inDialog (scan_dialog pg)) (deepQueryAll rt interactive_selectors)
        @ filter (\<lambda>x. \<not> inDialog (scan_dialog pg) x) (deepQueryAll rt interactive_selectors)"
    using assms by (simp add: scan_candidates_def sorted_candidates_split)
  have 3: "snd (ELEMENTS_JS sel pg) = Inr (map el_descriptor (scan_kept sel pg))"
    using assms by (simp add: scan_results)
  have 4: "document (fst (ELEMENTS_JS sel pg)) = stamp_all (scan_kept sel pg) 0 (scan_doc pg)"
    by (rule scan_document)
  have 5: "i < j"
    if "i < length (scan_kept sel pg)" "j < length (scan_kept sel pg)"
      "inDialog (scan_dialog pg) (scan_kept sel pg ! i)"
      "\<not> inDialog (scan_dialog pg) (scan_kept sel pg ! j)" for i j
    using that assms unfolding scan_kept_def scan_candidates_def
    by (simp add: kept_order)
  from 1 2 3 4 5 show ?thesis by blast
qed

theorem modal_bias_witness:
  "scan_root None (scan_doc demo_dialog_page) = Some (Document (scan_doc demo_dialog_page))
   \<and> map el_id (deepQueryAll (Document (scan_doc demo_dialog_page)) interactive_selectors)
       = [11, 13, 14, 15]
   \<and> map_option el_id (scan_dialog demo_dialog_page) = Some 12
   \<and> map el_id (scan_candidates None demo_dialog_page) = [13, 14, 11, 15]
   \<and> map el_id (scan_kept None demo_dialog_page) = [13, 11]
   \<and> inDialog (scan_dialog demo_dialog_page) (scan_kept None demo_dialog_page ! 0)
   \<and> \<not> inDialog (scan_dialog demo_dialog_page) (scan_kept None demo_dialog_page ! 1)
   \<and> snd (ELEMENTS_JS None demo_dialog_page)
       = Inr [\<lparr>label = ''button'', desc = ''OK''\<rparr>, \<lparr>label = ''button'', desc = ''OK''\<rparr>]"
proof -
  have a: "scan_root None (scan_doc demo_dialog_page) = Some (Document (scan_doc demo_dialog_page))"
    by (simp add: scan_root_def)
  have b: "map el_id (deepQueryAll (Document (scan_doc demo_dialog_page)) interactive_selectors)
       = [11, 13, 14, 15]" by code_simp
  have c: "map_option el_id (scan_dialog demo_dialog_page) = Some 12" by code_simp
  have d: "map el_id (scan_candidates None demo_dialog_page) = [13, 14, 11, 15]" by code_simp
  have e: "map el_id (scan_kept None demo_dialog_page) = [13, 11]" by code_simp
  have f: "inDialog (scan_dialog demo_dialog_page) (scan_kept None demo_dialog_page ! 0)"
    by code_simp
  have g: "\<not> inDialog (scan_dialog demo_dialog_page) (scan_kept None demo_dialog_page ! 1)"
    by code_simp
  have h: "map el_descriptor (scan_kept None demo_dialog_page)
       = [\<lparr>label = ''button'', desc = ''OK''\<rparr>, \<lparr>label = ''button'', desc = ''OK''\<rparr>]"
    by code_simp
  from modal_bias[OF a] h
  have "snd (ELEMENTS_JS None demo_dialog_page)
       = Inr [\<lparr>label = ''button'', desc = ''OK''\<rparr>, \<lparr>label = ''button'', desc = ''OK''\<rparr>]"
    by simp
  with a b c d e f g show ?thesis by blast
qed

text \<open>
  C4.  On a page where no element, in the document or in any shadow root, carries a
  stamp, the index check runs the scan script with the selector \<open>null\<close> and answers that
  it did; \<open>click\<close> and \<open>type\<close> then behave exactly as on the page this scan leaves.  When
  the elements of the page have distinct identities and the scan keeps more than \<open>i\<close>
  elements, both commands go on with the element the scan lists at index \<open>i\<close>.
  \<open>click i\<close> scrolls to it, presses and releases the mouse at its centre and reports
  its label and description.  \<open>type i text\<close> answers with the wrong-element-kind message
  and does nothing more when the element is no text entry; else it scrolls to the
  element and clicks it, clears it (selection and backspace for editable content, else
  the assignment of the empty value), inserts the text (through \<open>Input.insertText\<close>, or
  key by key when that call throws) and, for an input that is not a file input, sets
  the value and dispatches \<open>input\<close> and \<open>change\<close>; the page it leaves is the scanned page
  with these values.  The examples are \<open>click 0\<close> and \<open>type 0 hi\<close> on a page with one
  button, and \<open>type 0 hi\<close> on the page whose first listed element is an input.
\<close>

theorem auto_index:
  assumes "\<forall>e\<in>set (page_elements (document pg)). bjs_idx e = None"
  shows "ensureIndexed pg = (fst (ELEMENTS_JS None pg), True)
    \<and> cmdClick (Some i) pg = cmdClick (Some i) (fst (ELEMENTS_JS None pg))
    \<and> (text \<noteq> [] \<longrightarrow>
         cmdType thr (Some i) text pg = cmdType thr (Some i) text (fst (ELEMENTS_JS None pg)))
    \<and> (distinct (map el_id (page_elements (document pg))) \<and> i < length (scan_kept None pg) \<longrightarrow>
         cmdClick (Some i) pg =
           (fst (ELEMENTS_JS None pg),
            [ScrollIntoView (el_id (scan_kept None pg ! i)),
             MousePressed (center_x (scan_kept None pg ! i)) (center_y (scan_kept None pg ! i)),
             MouseReleased (center_x (scan_kept None pg ! i)) (center_y (scan_kept None pg ! i))],
            Clicked (click_label (scan_kept None pg ! i)) (click_desc (scan_kept None pg ! i))))
    \<and> (distinct (map el_id (page_elements (document pg))) \<and> i < length (scan_kept None pg)
          \<and> text \<noteq> [] \<longrightarrow>
         cmdType thr (Some i) text pg =
           (let el = scan_kept None pg ! i;
                pg1 = fst (ELEMENTS_JS None pg);
                click = [ScrollIntoView (el_id el),
                         MousePressed (center_x el) (center_y el),
                         MouseReleased (center_x el) (center_y el)];
                inserted = (if thr then concat (map (\<lambda>c. [KeyDown [c], KeyUp [c]]) text)
                            else [InsertText text])
            in if \<not> (el_tag el = ''input'' \<or> el_tag el = ''textarea''
                       \<or> isContentEditable (props el) \<or> el_role el = ''textbox'')
               then (pg1, [], Not_a_text_input i (el_tag el))
               else if isContentEditable (props el)
               then (pg1,
                     click @ [SelectNodeContents (el_id el),
                              KeyDown ''Backspace'', KeyUp ''Backspace'']
                       @ inserted,
                     Typed i (el_tag el) True)
               else if el_tag el = ''input'' \<and> prop_type (props el) \<noteq> ''file''
               then (pg1\<lparr>document :=
                           map (setValue (el_id el) text)
                             (map (setValue (el_id el) []) (document pg1))\<rparr>,
                     click @ [SetValue (el_id el) []] @ inserted
                       @ [SetValue (el_id el) text,
                          DispatchEvent (el_id el) ''input'', DispatchEvent (el_id el) ''change''],
                     Typed i (el_tag el) False)
               else (pg1\<lparr>document := map (setValue (el_id el) []) (document pg1)\<rparr>,
                     click @ [SetValue (el_id el) []] @ inserted,
                     Typed i (el_tag el) False)))"
proof -
  note e = no_stamps_unindexed[OF assms]
  have 1: "cmdClick (Some i) pg = cmdClick (Some i) (fst (ELEMENTS_JS None pg))"
    by (simp add: cmdClick_def e ensureIndexed_after_scan)
  have 2: "cmdType thr (Some i) text pg = cmdType thr (Some i) text (fst (ELEMENTS_JS None pg))"
    if "text \<noteq> []"
    using that by (simp add: cmdType_def e ensureIndexed_after_scan)
  have 3: "cmdClick (Some i) pg =
           (fst (ELEMENTS_JS None pg),
            [ScrollIntoView (el_id (scan_kept None pg ! i)),
             MousePressed (center_x (scan_kept None pg ! i)) (center_y (scan_kept None pg ! i)),
             MouseReleased (center_x (scan_kept None pg ! i)) (center_y (scan_kept None pg ! i))],
            Clicked (click_label (scan_kept None pg ! i)) (click_desc (scan_kept None pg ! i)))"
    if "distinct (map el_id (page_elements (document pg)))" "i < length (scan_kept None pg)"
    using resolve_after_scan[OF that] by (simp add: cmdClick_def e)
  have 4: "cmdType thr (Some i) text pg =
           (let el = scan_kept None pg ! i;
                pg1 = fst (ELEMENTS_JS None pg);
                click = [ScrollIntoView (el_id el),
                         MousePressed (center_x el) (center_y el),
                         MouseReleased (center_x el) (center_y el)];
                inserted = (if thr then concat (map (\<lambda>c. [KeyDown [c], KeyUp [c]]) text)
                            else [InsertText text])
            in if \<not> (el_tag el = ''input'' \<or> el_tag el = ''textarea''
                       \<or> isContentEditable (props el) \<or> el_role el = ''textbox'')
               then (pg1, [], Not_a_text_input i (el_tag el))
               else if isContentEditable (props el)
               then (pg1,
                     click @ [SelectNodeContents (el_id el),
                              KeyDown ''Backspace'', KeyUp ''Backspace'']
                       @ inserted,
                     Typed i (el_tag el) True)
               else if el_tag el = ''input'' \<and> prop_type (props el) \<noteq> ''file''
               then (pg1\<lparr>document :=
                           map (setValue (el_id el) text)
                             (map (setValue (el_id el) []) (document pg1))\<rparr>,
                     click @ [SetValue (el_id el) []] @ inserted
                       @ [SetValue (el_id el) text,
                          DispatchEvent (el_id el) ''input'', DispatchEvent (el_id el) ''change''],
                     Typed i (el_tag el) False)
               else (pg1\<lparr>document := map (setValue (el_id el) []) (document pg1)\<rparr>,
                     click @ [SetValue (el_id el) []] @ inserted,
                     Typed i (el_tag el) False))"
    if "distinct (map el_id (page_elements (document pg)))" "i < length (scan_kept None pg)"
       "text \<noteq> []"
  proof -
    have r: "resolve (fst (ensureIndexed pg)) i
             = Some (stamped (scan_kept None pg) 0 (scan_kept None pg ! i))"
      using resolve_after_scan[OF that(1,2)] by (simp add: e)
    show ?thesis
      unfolding cmdType_resolved[OF that(3) r, of thr]
      by (simp add: Let_def e)
  qed
  from e 1 2 3 4 show ?thesis by blast
qed

theorem auto_index_witness:
  "map bjs_idx (page_elements (document demo_single_page)) = [None, None]
   \<and> distinct (map el_id (page_elements (document demo_single_page)))
   \<and> map el_id (scan_kept None demo_single_page) = [41]
   \<and> el_label (scan_kept None demo_single_page ! 0) = ''button''
   \<and> ensureIndexed demo_single_page = (fst (ELEMENTS_JS None demo_single_page), True)
   \<and> snd (ELEMENTS_JS None demo_single_page) = Inr [\<lparr>label = ''button'', desc = ''OK''\<rparr>]
   \<and> cmdClick (Some 0) demo_single_page =
       (fst (ELEMENTS_JS None demo_single_page),
        [ScrollIntoView 41, MousePressed 5 5, MouseReleased 5 5],
        Clicked ''button'' ''OK'')
   \<and> cmdType False (Some 0) ''hi'' demo_single_page =
       (fst (ELEMENTS_JS None demo_single_page), [], Not_a_text_input 0 ''button'')
   \<and> map bjs_idx (page_elements (document demo_page)) = [None, None, None, None, None]
   \<and> distinct (map el_id (page_elements (document demo_page)))
   \<and> map el_id (scan_kept None demo_page) = [5, 3, 4]
   \<and> cmdType False (Some 0) ''hi'' demo_page =
       ((fst (ELEMENTS_JS None demo_page))
          \<lparr>document := map (setValue 5 ''hi'')
                         (map (setValue 5 []) (document (fst (ELEMENTS_JS None demo_page))))\<rparr>,
        [ScrollIntoView 5, MousePressed 5 25, MouseReleased 5 25, SetValue 5 [],
         InsertText ''hi'', SetValue 5 ''hi'',
         DispatchEvent 5 ''input'', DispatchEvent 5 ''change''],
        Typed 0 ''input'' False)"
proof -
  let ?pg = demo_single_page
  have a: "\<forall>e\<in>set (page_elements (document ?pg)). bjs_idx e = None" by code_simp
  have a0: "map bjs_idx (page_elements (document ?pg)) = [None, None]" by code_simp
  have b: "distinct (map el_id (page_elements (document ?pg)))" by code_simp
  have c: "map el_id (scan_kept None ?pg) = [41]" by code_simp
  have d: "el_label (scan_kept None ?pg ! 0) = ''button''" by code_simp
  have f: "snd (ELEMENTS_JS None ?pg) = Inr [\<lparr>label = ''button'', desc = ''OK''\<rparr>]" by code_simp
  have k: "scan_kept None ?pg ! 0 = demo_ok 41" by code_simp
  have g: "el_id (demo_ok 41) = 41" "click_label (demo_ok 41) = ''button''"
    "click_desc (demo_ok 41) = ''OK''" "el_tag (demo_ok 41) = ''button''"
    "el_role (demo_ok 41) = []" "isContentEditable (props (demo_ok 41)) = False"
    by code_simp+
  have h: "center_x (demo_ok 41) = 5" "center_y (demo_ok 41) = 5"
    by (simp_all add: center_x_def center_y_def demo_ok_def demo_props_def)
  have l: "0 < length (scan_kept None ?pg)" using c by auto
  have t: "''hi'' \<noteq> []" by simp
  note T = auto_index[OF a, of 0 "''hi''" False]
  have 1: "ensureIndexed ?pg = (fst (ELEMENTS_JS None ?pg), True)"
    using T by (rule conjunct1)
  have 2: "cmdClick (Some 0) ?pg =
       (fst (ELEMENTS_JS None ?pg), [ScrollIntoView 41, MousePressed 5 5, MouseReleased 5 5],
        Clicked ''button'' ''OK'')"
    using T[THEN conjunct2, THEN conjunct2, THEN conjunct2, THEN conjunct1] b l
    unfolding k g h by blast
  have 3: "cmdType False (Some 0) ''hi'' ?pg =
       (fst (ELEMENTS_JS None ?pg), [], Not_a_text_input 0 ''button'')"
    using T[THEN conjunct2, THEN conjunct2, THEN conjunct2, THEN conjunct2] b l t
    unfolding k by (simp add: Let_def g)
  let ?qg = demo_page
  have qa: "\<forall>e\<in>set (page_elements (document ?qg)). bjs_idx e = None" by code_simp
  have qa0: "map bjs_idx (page_elements (document ?qg)) = [None, None, None, None, None]"
    by code_simp
  have qb: "distinct (map el_id (page_elements (document ?qg)))" by code_simp
  have qc: "map el_id (scan_kept None ?qg) = [5, 3, 4]" by code_simp
  have qk: "scan_kept None ?qg ! 0 = demo_submit" by code_simp
  have qg: "el_id demo_submit = 5" "el_tag demo_submit = ''input''"
    "isContentEditable (props demo_submit) = False" "prop_type (props demo_submit) = ''submit''"
    by code_simp+
  have qh: "center_x demo_submit = 5" "center_y demo_submit = 25"
    by (simp_all add: center_x_def center_y_def demo_submit_def demo_props_def)
  have ql: "0 < length (scan_kept None ?qg)" using qc by auto
  have 4: "cmdType False (Some 0) ''hi'' ?qg =
       ((fst (ELEMENTS_JS None ?qg))
          \<lparr>document := map (setValue 5 ''hi'')
                         (map (setValue 5 []) (document (fst (ELEMENTS_JS None ?qg))))\<rparr>,
        [ScrollIntoView 5, MousePressed 5 25, MouseReleased 5 25, SetValue 5 [],
         InsertText ''hi'', SetValue 5 ''hi'',
         DispatchEvent 5 ''input'', DispatchEvent 5 ''change''],
        Typed 0 ''input'' False)"
    using auto_index[OF qa, of 0 "''hi''" False, THEN conjunct2, THEN conjunct2, THEN conjunct2,
        THEN conjunct2] qb ql t
    unfolding qk by (simp add: Let_def qg qh)
  from a0 b c d f 1 2 3 qa0 qb qc 4 show ?thesis by blast
qed

text \<open>
  C5.  When the element that \<open>type\<close>, called with a text, resolves is no input, no textarea, has no role
  \<open>textbox\<close> and is not content-editable, the command returns the wrong-element-kind
  message and sends nothing: no scroll, no mouse event, no key event, no text insertion,
  and the page is the one left by the index check (its scan, when it ran one).
\<close>

theorem type_rejects_non_text:
  assumes "text \<noteq> []"
    and "resolve (fst (ensureIndexed pg)) i = Some el"
    and "el_tag el \<noteq> ''input''" and "el_tag el \<noteq> ''textarea''"
    and "el_role el \<noteq> ''textbox''" and "\<not> isContentEditable (props el)"
  shows "cmdType thr (Some i) text pg = (fst (ensureIndexed pg), [], Not_a_text_input i (el_tag el))"
  using assms by (simp add: cmdType_def typeable_def)

theorem type_rejects_non_text_witness:
  "''hi'' \<noteq> []
   \<and> resolve (fst (ensureIndexed demo_page)) 2 = Some (setStamp 4 2 demo_button)
   \<and> el_tag (setStamp 4 2 demo_button) \<noteq> ''input''
   \<and> el_tag (setStamp 4 2 demo_button) \<noteq> ''textarea''
   \<and> el_role (setStamp 4 2 demo_button) \<noteq> ''textbox''
   \<and> \<not> isContentEditable (props (setStamp 4 2 demo_button))
   \<and> cmdType False (Some 2) ''hi'' demo_page
       = (fst (ensureIndexed demo_page), [], Not_a_text_input 2 (el_tag (setStamp 4 2 demo_button)))"
proof -
  have a: "''hi'' \<noteq> []" by simp
  have b: "resolve (fst (ensureIndexed demo_page)) 2 = Some (setStamp 4 2 demo_button)"
    by code_simp
  have c: "el_tag (setStamp 4 2 demo_button) \<noteq> ''input''" by code_simp
  have d: "el_tag (setStamp 4 2 demo_button) \<noteq> ''textarea''" by code_simp
  have e: "el_role (setStamp 4 2 demo_button) \<noteq> ''textbox''" by code_simp
  have f: "\<not> isContentEditable (props (setStamp 4 2 demo_button))" by code_simp
  from type_rejects_non_text[OF a b c d e f, of False] a b c d e f show ?thesis by blast
qed

text \<open>
  C6.  The claim says that the href is appended for every anchor, and that the value is
  appended in brackets.  The script leaves the href of a \<open>javascript:\<close> link out, and a
  value that meets an empty description becomes the description, without brackets.
\<close>

theorem description_counterexample:
  "tag_is demo_js_link ''a''
   \<and> prop_href (props demo_js_link) = ''javascript:void(0)''
   \<and> desc (el_descriptor demo_js_link) = ''Go''
   \<and> tag_is demo_submit ''input''
   \<and> prop_value (props demo_submit) = ''Send''
   \<and> desc (el_descriptor demo_submit) = ''Send''"
  by code_simp

text \<open>
  C6, as amended.  The description starts from the first non-empty of: the \<open>aria-label\<close>
  attribute; the text content, trimmed, cut to 80 characters and then with whitespace
  collapsed; the placeholder; the name.  The value (of an input, select or textarea, cut
  to 40 characters) is added when it is not empty and does not occur in the description
  so far: in brackets after a space, or alone when the description is empty.  For an
  anchor whose href is not empty and does not start with \<open>javascript:\<close>, the href, as it
  is up to 60 characters and else its first 57 characters and three dots, is added:
  after the arrow separator, or alone when the description is empty.  The listed
  description is the first 120 characters of the result.
\<close>

theorem description_derivation:
  fixes el :: element
  defines "href \<equiv> prop_href (props el)"
    and "base \<equiv>
      (if el_ariaLabel el \<noteq> [] then el_ariaLabel el
       else if el_text el \<noteq> [] then el_text el
       else if prop_placeholder (props el) \<noteq> [] then prop_placeholder (props el)
       else prop_name (props el))"
  defines "with_value \<equiv>
      (if el_value el = [] \<or> sublist (el_value el) base then base
       else if base = [] then el_value el
       else base @ '' ['' @ el_value el @ '']'')"
  defines "with_href \<equiv>
      (if tag_is el ''a'' \<and> href \<noteq> [] \<and> \<not> prefix ''javascript:'' href
       then (if with_value = [] then short_href href
             else with_value @ [CHR 0x20, arrow, CHR 0x20] @ short_href href)
       else with_value)"
  shows "el_ariaLabel el = (case getAttribute el ''aria-label'' of None \<Rightarrow> [] | Some v \<Rightarrow> v)
    \<and> el_text el = collapse_ws (take 80 (trim (textContent (props el))))
    \<and> length (el_text el) \<le> 80 \<and> collapsed (el_text el)
    \<and> el_value el =
        (if tag_is el ''input'' \<or> tag_is el ''select'' \<or> tag_is el ''textarea''
         then take 40 (prop_value (props el)) else [])
    \<and> length (short_href href) \<le> 60
    \<and> (if length href \<le> 60 then short_href href = href
        else short_href href = take 57 href @ ''...'')
    \<and> el_desc el = with_href
    \<and> desc (el_descriptor el) = take 120 with_href"
proof -
  have d: "el_desc el = with_href"
    unfolding el_desc_def with_href_def with_value_def base_def href_def
    by (simp add: Let_def or_else_def str_includes_sublist startsWith_prefix tag_is_def el_tag_def)
  show ?thesis
    using el_text_bounds[of el] short_href_bounds[of href] d
    by (simp add: el_ariaLabel_def attr_or_empty_def el_text_def slice0_def el_value_def
        tag_is_def el_tag_def el_descriptor_def)
qed

theorem description_derivation_witness:
  "desc (el_descriptor demo_link) = [CHR ''A'', CHR 0x20, arrow, CHR 0x20] @ ''https://x/a''
   \<and> el_desc demo_link = [CHR ''A'', CHR 0x20, arrow, CHR 0x20] @ ''https://x/a''
   \<and> el_text demo_link = ''A''
   \<and> el_value demo_link = []
   \<and> short_href (prop_href (props demo_link)) = ''https://x/a''"
proof -
  have a: "el_ariaLabel demo_link = []" by code_simp
  have b: "el_text demo_link = ''A''" by code_simp
  have c: "el_value demo_link = []" by code_simp
  have d: "tag_is demo_link ''a'' = True" by code_simp
  have e: "prop_href (props demo_link) = ''https://x/a''" by code_simp
  have f: "prefix ''javascript:'' ''https://x/a'' = False" by simp
  have g: "short_href ''https://x/a'' = ''https://x/a''" by code_simp
  have "el_desc demo_link = [CHR ''A'', CHR 0x20, arrow, CHR 0x20] @ ''https://x/a''
      \<and> desc (el_descriptor demo_link) = take 120 ([CHR ''A'', CHR 0x20, arrow, CHR 0x20] @ ''https://x/a'')"
    using description_derivation[of demo_link]
    by (simp add: a b c d e f g)
  then show ?thesis using b c e g by simp
qed

text \<open>
  C7.  Scanning the page a scan has left, with the same selector, returns the same value
  (the same descriptors in the same order, or the same error) and leaves the same page:
  the second run first clears every stamp of the first, which puts the document back
  to what the first run started from, and then assigns the same stamps again.
\<close>

theorem scan_idempotent:
  "snd (ELEMENTS_JS sel (fst (ELEMENTS_JS sel pg))) = snd (ELEMENTS_JS sel pg)
   \<and> fst (ELEMENTS_JS sel (fst (ELEMENTS_JS sel pg))) = fst (ELEMENTS_JS sel pg)
   \<and> deepClearStamps (document (fst (ELEMENTS_JS sel pg))) = deepClearStamps (document pg)"
  by (simp add: scan_twice deepClearStamps_after_scan)





text \<open>
  C10.  The confirmation of a successful \<open>click\<close> is computed from the resolved element
  when the command runs: its label is the \<open>role\<close> attribute, or the lower-cased tag name
  when the attribute is absent or empty, and its description is the \<open>aria-label\<close>
  attribute or else the text content, trimmed and cut to 80 characters.  Lower case
  covers every letter below code unit 256 (lemmas \<open>lower_char_letters\<close>,
  \<open>lower_char_other\<close> and \<open>toLowerCase_latin1\<close>).  For an anchor without a role the
  label is \<open>a\<close>, where the scan lists the same element as \<open>link\<close>.
\<close>

theorem click_message_recomputed:
  assumes "resolve (fst (ensureIndexed pg)) i = Some el"
  shows "snd (snd (cmdClick (Some i) pg)) =
           Clicked (or_else (attr_or_empty el ''role'') (toLowerCase (tagName el)))
                   (slice0 80 (trim (or_else (attr_or_empty el ''aria-label'')
                                             (textContent (props el)))))
         \<and> (toLowerCase (tagName el) = ''a'' \<and> attr_or_empty el ''role'' = []
              \<longrightarrow> click_label el = ''a''
                  \<and> (label (el_descriptor el) = ''link''
                       \<or> label (el_descriptor el) = ''link:disabled''))"
  using assms
  by (simp add: cmdClick_def click_label_def click_desc_def el_descriptor_def el_label_def
      el_tag_def or_else_def Let_def)

theorem click_message_recomputed_witness:
  "resolve (fst (ensureIndexed demo_page)) 1 = Some (setStamp 3 1 demo_link)
   \<and> snd (snd (cmdClick (Some 1) demo_page)) = Clicked ''a'' ''A''
   \<and> label (el_descriptor (setStamp 3 1 demo_link)) = ''link''
   \<and> map label (projr (snd (ELEMENTS_JS None demo_page))) ! 1 = ''link''"
proof -
  have a: "resolve (fst (ensureIndexed demo_page)) 1 = Some (setStamp 3 1 demo_link)"
    by code_simp
  have b: "or_else (attr_or_empty (setStamp 3 1 demo_link) ''role'')
             (toLowerCase (tagName (setStamp 3 1 demo_link))) = ''a''"
    by code_simp
  have c: "slice0 80 (trim (or_else (attr_or_empty (setStamp 3 1 demo_link) ''aria-label'')
             (textContent (props (setStamp 3 1 demo_link))))) = ''A''"
    by code_simp
  have d: "label (el_descriptor (setStamp 3 1 demo_link)) = ''link''" by code_simp
  have e: "map label (projr (snd (ELEMENTS_JS None demo_page))) ! 1 = ''link''" by code_simp
  from click_message_recomputed[OF a] have "snd (snd (cmdClick (Some 1) demo_page)) = Clicked ''a'' ''A''"
    unfolding b c by blast
  with a d e show ?thesis by blast
qed

end
